theory Spec2Isabelle
  imports Main "HOL-Library.Word" "HOL-Library.Multiset"
begin

unbundle bit_operations_syntax

section \<open>The program: \<^verbatim>\<open>modfibo.py\<close>\<close>

text \<open>
  Python integers are modelled as \<^typ>\<open>int\<close>, the elements of the \<^verbatim>\<open>bytearray\<close> as
  8-bit words, the \<^verbatim>\<open>bytearray\<close> itself as a list of them. Every exception the code can
  raise is a value of \<open>error\<close>.
\<close>

type_synonym byte = "8 word"

datatype error = ValueError | IndexError | ZeroDivisionError | OverflowError

subsection \<open>\<^verbatim>\<open>class VisitedMap\<close>\<close>

text \<open>The field \<^verbatim>\<open>self.map\<close> is called \<open>map_bytes\<close> here (\<open>map\<close> is the list functional).\<close>

record VisitedMap =
  side :: int
  map_bytes :: "byte list"

text \<open>
  \<^verbatim>\<open>
  def __init__(self, side: int):
      self.side = abs(side)
      self.map = bytearray(math.ceil(side * side / 8))
  \<close>
  \<^verbatim>\<open>side * side / 8\<close> is Python's true division of two integers: the result is the
  floating-point number (IEEE binary64: 53 significant bits, values below \<open>2^1024\<close>)
  nearest to the exact quotient, ties going to the even significand, and the division
  raises \<^verbatim>\<open>OverflowError\<close> when that number is too large for a float. The divisor is a
  power of two, so the quotient has the significant bits of the dividend: it is the
  dividend rounded to 53 significant bits, divided by 8 exactly.

  \<open>bit_length x\<close> is the number of bits of \<open>x > 0\<close>, and \<open>round_to_double x\<close>, for
  \<open>x \<ge> 0\<close>, the integer nearest to \<open>x\<close> that has at most 53 significant bits (ties to
  even). \<open>math_ceil_div8 x\<close> is \<^verbatim>\<open>math.ceil(x / 8)\<close> for an integer \<open>x \<ge> 0\<close>: the ceiling,
  an exact integer, of that float.
\<close>

function bit_length :: "int \<Rightarrow> nat" where
  "bit_length x = (if x \<le> 0 then 0 else Suc (bit_length (x div 2)))"
  by pat_completeness auto
termination
  by (relation "measure nat") auto

declare bit_length.simps [simp del]

definition round_to_double :: "int \<Rightarrow> int" where
  "round_to_double x =
     (if bit_length x \<le> 53 then x
      else let e = bit_length x - 53;
               m = x div 2 ^ e;
               r = x mod 2 ^ e
           in (if 2 ^ e < 2 * r \<or> (2 * r = 2 ^ e \<and> odd m) then m + 1 else m) * 2 ^ e)"

definition math_ceil_div8 :: "int \<Rightarrow> error + int" where
  "math_ceil_div8 x =
     (let y = round_to_double x
      in if 2 ^ 1027 \<le> y then Inl OverflowError else Inr (- ((- y) div 8)))"

text \<open>
  \<^verbatim>\<open>bytearray(n)\<close> is \<open>n\<close> zero bytes. The memory of the model is unbounded: no
  allocation fails, whatever its size.
\<close>

definition VisitedMap_init :: "int \<Rightarrow> error + VisitedMap" where
  "VisitedMap_init s =
     (case math_ceil_div8 (s * s) of
        Inl e \<Rightarrow> Inl e
      | Inr n \<Rightarrow> Inr \<lparr>side = \<bar>s\<bar>, map_bytes = replicate (nat n) 0\<rparr>)"

text \<open>
  Where \<^verbatim>\<open>xs[i]\<close> reads or writes, in Python: at \<open>i\<close> for \<open>0 \<le> i < len(xs)\<close>, at
  \<open>len(xs) + i\<close> for \<open>-len(xs) \<le> i < 0\<close>, and nowhere otherwise (\<^verbatim>\<open>IndexError\<close>, here
  \<open>None\<close>).
\<close>

definition index_of :: "'a list \<Rightarrow> int \<Rightarrow> nat option" where
  "index_of xs i =
     (if 0 \<le> i \<and> i < int (length xs) then Some (nat i)
      else if - int (length xs) \<le> i \<and> i < 0 then Some (nat (int (length xs) + i))
      else None)"

text \<open>
  \<^verbatim>\<open>
  def visit(self, n1: int, n2: int) -> bool:
      pos = n1 * self.side + n2
      byte_pos = pos // 8
      bit = 1 << (pos % 8)
      try:
          return bool(self.map[byte_pos] & bit)
      finally:
          self.map[byte_pos] |= bit
  \<close>
  The result is the returned truth value together with the map after the call. When the
  index is out of range both the read and the write of the \<^verbatim>\<open>finally\<close> block raise
  \<^verbatim>\<open>IndexError\<close> and the map is left as it was.
\<close>

definition visit :: "VisitedMap \<Rightarrow> int \<Rightarrow> int \<Rightarrow> error + (bool \<times> VisitedMap)" where
  "visit vm n1 n2 =
     (let pos = n1 * side vm + n2;
          byte_pos = pos div 8;
          bitv = (push_bit (nat (pos mod 8)) 1 :: byte)
      in case index_of (map_bytes vm) byte_pos of
           None \<Rightarrow> Inl IndexError
         | Some j \<Rightarrow>
             Inr (map_bytes vm ! j AND bitv \<noteq> 0,
                  vm\<lparr>map_bytes := (map_bytes vm)[j := map_bytes vm ! j OR bitv]\<rparr>))"

text \<open>
  \<^verbatim>\<open>enumerate((1, 2, 4, 8, 16, 32, 64, 128))\<close>: the bit positions with their masks.
\<close>

definition bit_table :: "(nat \<times> byte) list" where
  "bit_table = [(0, 1), (1, 2), (2, 4), (3, 8), (4, 16), (5, 32), (6, 64), (7, 128)]"

text \<open>
  \<^verbatim>\<open>
  def iterate_free_pairs(self) -> Iterable[Tuple[int, int]]:
      for byte_pos in range(len(self.map)):
          byte = self.map[byte_pos]
          for bit_pos, bit in enumerate((1, 2, 4, 8, 16, 32, 64, 128)):
              if byte & bit == 0:
                  pos = byte_pos * 8 + bit_pos
                  n1 = pos // self.side
                  if n1 >= self.side:
                      return
                  n2 = pos % self.side
                  yield n1, n2
                  byte = self.map[byte_pos]
  \<close>
  The generator is a state machine. Between two yields it runs \<open>scan\<close>: the outer loop
  is at \<open>byte_pos\<close>, the inner loop still has the entries \<open>rest\<close> of the bit table before
  it (\<open>bitv\<close> is the source's \<^verbatim>\<open>bit\<close>), and \<open>byte\<close> is the local copy of the current
  byte. \<open>scan\<close> returns \<open>Inr None\<close> when
  the generator finishes (the loops are exhausted or the \<^verbatim>\<open>return\<close> is taken), and
  \<open>Inr (Some (pair, byte_pos, rest))\<close> when it yields \<open>pair\<close> and is suspended with that
  loop state. The map is the consumer's to change while the generator is suspended, so
  it is an argument of every resumption. \<^verbatim>\<open>range(len(self.map))\<close> is evaluated once, at the
  first pull; \<open>scan\<close> reads the length of the map it is given, which is the same, since
  \<^verbatim>\<open>visit\<close> never changes the length of the map.
\<close>

type_synonym scan_state = "nat \<times> (nat \<times> byte) list"

function scan ::
  "VisitedMap \<Rightarrow> nat \<Rightarrow> (nat \<times> byte) list \<Rightarrow> byte \<Rightarrow> error + ((int \<times> int) \<times> scan_state) option"
where
  "scan vm byte_pos [] byte =
     (if Suc byte_pos < length (map_bytes vm)
      then scan vm (Suc byte_pos) bit_table (map_bytes vm ! Suc byte_pos)
      else Inr None)"
| "scan vm byte_pos ((bit_pos, bitv) # rest) byte =
     (if byte AND bitv = 0 then
        (let pos = int byte_pos * 8 + int bit_pos in
         if side vm = 0 then Inl ZeroDivisionError
         else let n1 = pos div side vm in
           if n1 \<ge> side vm then Inr None
           else Inr (Some ((n1, pos mod side vm), (byte_pos, rest))))
      else scan vm byte_pos rest byte)"
  by pat_completeness auto
termination
  by (relation "measures [\<lambda>(vm, byte_pos, rest, byte). length (map_bytes vm) - byte_pos,
                          \<lambda>(vm, byte_pos, rest, byte). length rest]") auto

text \<open>The first pull: the outer loop starts at byte 0, if there is one.\<close>

definition iterate_free_pairs :: "VisitedMap \<Rightarrow> error + ((int \<times> int) \<times> scan_state) option" where
  "iterate_free_pairs vm =
     (if 0 < length (map_bytes vm) then scan vm 0 bit_table (map_bytes vm ! 0) else Inr None)"

text \<open>
  A later pull resumes after the \<^verbatim>\<open>yield\<close>: the statement there reloads \<open>byte\<close> from the
  map as it is now, and the inner loop goes on.
\<close>

definition resume :: "VisitedMap \<Rightarrow> scan_state \<Rightarrow> error + ((int \<times> int) \<times> scan_state) option" where
  "resume vm st =
     (case st of (byte_pos, rest) \<Rightarrow>
        if byte_pos < length (map_bytes vm)
        then scan vm byte_pos rest (map_bytes vm ! byte_pos)
        else Inl IndexError)"

subsection \<open>Reading the bitmap\<close>

text \<open>
  \<open>is_set vm p\<close>: bit \<open>p mod 8\<close> of byte \<open>p div 8\<close> of the map is set, that is, the bit
  of flat index \<open>p\<close>. \<open>unset_bits\<close> counts the clear bits of the whole map; every call
  of \<open>visit\<close> that returns \<^verbatim>\<open>False\<close> lowers it, which is why the \<^verbatim>\<open>while\<close> loop of
  \<^verbatim>\<open>modulo_fibonacci\<close> terminates.
\<close>

definition is_set :: "VisitedMap \<Rightarrow> nat \<Rightarrow> bool" where
  "is_set vm p \<longleftrightarrow> p < 8 * length (map_bytes vm) \<and> bit (map_bytes vm ! (p div 8)) (p mod 8)"

definition unset_bits :: "VisitedMap \<Rightarrow> nat" where
  "unset_bits vm = card {p. p < 8 * length (map_bytes vm) \<and> \<not> is_set vm p}"

lemma test_mask: "k < 8 \<Longrightarrow> ((w::byte) AND push_bit k 1 \<noteq> 0) = bit w k"
  by (simp add: bit_iff_and_push_bit_not_eq_0)

lemma bit_or_mask: "k < 8 \<Longrightarrow> bit ((w::byte) OR push_bit k 1) m = (bit w m \<or> m = k)"
  by (auto simp add: bit_simps bit_1_iff dest: bit_imp_le_length)

lemma visit_at:
  assumes j: "index_of (map_bytes vm) ((n1 * side vm + n2) div 8) = Some j"
  defines "p \<equiv> 8 * j + nat ((n1 * side vm + n2) mod 8)"
  shows "\<exists>vm'. visit vm n1 n2 = Inr (is_set vm p, vm') \<and>
           (\<forall>q. is_set vm' q = (is_set vm q \<or> q = p)) \<and>
           length (map_bytes vm') = length (map_bytes vm) \<and> side vm' = side vm"
    and "p < 8 * length (map_bytes vm)"
proof -
  define k where "k = nat ((n1 * side vm + n2) mod 8)"
  have k: "k < 8" unfolding k_def by simp
  have p: "p = 8 * j + k" by (simp add: p_def k_def)
  define vm' where "vm' = vm\<lparr>map_bytes := (map_bytes vm)[j := map_bytes vm ! j OR push_bit k 1]\<rparr>"
  from j have jl: "j < length (map_bytes vm)"
    by (auto simp: index_of_def Let_def split: if_splits)
  have d: "p div 8 = j" "p mod 8 = k" using k p by auto
  have pl: "p < 8 * length (map_bytes vm)" using jl k p by simp
  then show "p < 8 * length (map_bytes vm)" .
  have v: "visit vm n1 n2 = Inr (map_bytes vm ! j AND push_bit k 1 \<noteq> 0, vm')"
    using j by (simp add: visit_def Let_def k_def vm'_def)
  have r: "(map_bytes vm ! j AND push_bit k 1 \<noteq> 0) = is_set vm p"
    using k jl d pl test_mask[OF k, of "map_bytes vm ! j"] by (simp add: is_set_def)
  have "is_set vm' q = (is_set vm q \<or> q = p)" for q
  proof (cases "q div 8 = j")
    case True
    then have "q = p \<longleftrightarrow> q mod 8 = k" using d by (metis div_mult_mod_eq)
    with True jl k bit_or_mask[OF k, of "map_bytes vm ! j" "q mod 8"] show ?thesis
      by (auto simp: is_set_def vm'_def)
  next
    case False
    then have "q \<noteq> p" using d by auto
    with False show ?thesis by (auto simp: is_set_def vm'_def)
  qed
  with v r show "\<exists>vm'. visit vm n1 n2 = Inr (is_set vm p, vm') \<and>
           (\<forall>q. is_set vm' q = (is_set vm q \<or> q = p)) \<and>
           length (map_bytes vm') = length (map_bytes vm) \<and> side vm' = side vm"
    by (auto simp: vm'_def)
qed

lemma visit_cases:
  assumes "visit vm n1 n2 = Inr (r, vm')"
  shows "\<exists>p < 8 * length (map_bytes vm). r = is_set vm p \<and>
           (\<forall>q. is_set vm' q = (is_set vm q \<or> q = p)) \<and>
           length (map_bytes vm') = length (map_bytes vm) \<and> side vm' = side vm"
proof -
  from assms obtain j where j: "index_of (map_bytes vm) ((n1 * side vm + n2) div 8) = Some j"
    by (auto simp: visit_def Let_def split: option.splits)
  from visit_at[OF j] assms show ?thesis by auto
qed

lemma visit_in_range:
  assumes "0 \<le> n1 * side vm + n2" and "nat (n1 * side vm + n2) < 8 * length (map_bytes vm)"
  shows "\<exists>vm'. visit vm n1 n2 = Inr (is_set vm (nat (n1 * side vm + n2)), vm') \<and>
           (\<forall>q. is_set vm' q = (is_set vm q \<or> q = nat (n1 * side vm + n2))) \<and>
           length (map_bytes vm') = length (map_bytes vm) \<and> side vm' = side vm"
proof -
  define pos where "pos = n1 * side vm + n2"
  have pos: "0 \<le> pos" "pos < 8 * int (length (map_bytes vm))" using assms by (auto simp: pos_def)
  then have dv: "0 \<le> pos div 8" "pos div 8 < int (length (map_bytes vm))" by presburger+
  then have j: "index_of (map_bytes vm) (pos div 8) = Some (nat (pos div 8))"
    by (simp add: index_of_def Let_def)
  have "int (8 * nat (pos div 8) + nat (pos mod 8)) = pos" using dv by simp
  then have "8 * nat (pos div 8) + nat (pos mod 8) = nat pos" by linarith
  with visit_at(1)[OF j[unfolded pos_def]] show ?thesis by (simp add: pos_def)
qed

lemma finite_unset: "finite {p. p < 8 * length (map_bytes vm) \<and> \<not> is_set vm p}"
  by simp

lemma visit_decreases:
  assumes "visit vm n1 n2 = Inr (False, vm')"
  shows "unset_bits vm' < unset_bits vm"
proof -
  from visit_cases[OF assms] obtain p where p: "p < 8 * length (map_bytes vm)" "\<not> is_set vm p"
    and q: "\<And>q. is_set vm' q = (is_set vm q \<or> q = p)"
    and l: "length (map_bytes vm') = length (map_bytes vm)" by auto
  have "{p. p < 8 * length (map_bytes vm') \<and> \<not> is_set vm' p}
        \<subset> {p. p < 8 * length (map_bytes vm) \<and> \<not> is_set vm p}"
    using p q l by auto
  then show ?thesis unfolding unset_bits_def by (intro psubset_card_mono finite_unset)
qed

subsection \<open>\<^verbatim>\<open>modulo_fibonacci\<close>\<close>

text \<open>
  \<^verbatim>\<open>
  def modulo_fibonacci(base: int) -> Iterable[List[int]]:
      if base <= 0:
          raise ValueError('Mod must be positive.')
      visited_map = VisitedMap(base)
      for n1, n2 in visited_map.iterate_free_pairs():
          run = []
          while not visited_map.visit(n1, n2):
              n1, n2 = n2, (n1 + n2) % base
              run.append(n1)
          yield run
  \<close>
  \<open>walk\<close> is the \<^verbatim>\<open>while\<close> loop. The simultaneous assignment makes the new \<^verbatim>\<open>n1\<close> the
  old \<^verbatim>\<open>n2\<close>, and that is the value appended to \<open>run\<close>. The argument \<open>seen\<close> is not in
  the source: it records, in order, the pairs on which \<open>visit\<close> returned \<^verbatim>\<open>False\<close>
  (the states the walk went through), so that theorems can speak about them; nothing is
  computed from it. \<^verbatim>\<open>%\<close> raises \<^verbatim>\<open>ZeroDivisionError\<close> for a zero modulus and agrees with
  \<open>mod\<close> on \<^typ>\<open>int\<close> otherwise.
\<close>

function walk ::
  "int \<Rightarrow> VisitedMap \<Rightarrow> int \<Rightarrow> int \<Rightarrow> int list \<Rightarrow> (int \<times> int) list
     \<Rightarrow> error + (int list \<times> (int \<times> int) list \<times> VisitedMap)"
where
  "walk base vm n1 n2 run seen =
     (case visit vm n1 n2 of
        Inl e \<Rightarrow> Inl e
      | Inr (visited, vm') \<Rightarrow>
          if visited then Inr (run, seen, vm')
          else if base = 0 then Inl ZeroDivisionError
          else walk base vm' n2 ((n1 + n2) mod base) (run @ [n2]) (seen @ [(n1, n2)]))"
  by pat_completeness auto
termination
  by (relation "measure (\<lambda>(base, vm, n1, n2, run, seen). unset_bits vm)")
     (auto dest: visit_decreases)

text \<open>
  The \<^verbatim>\<open>for\<close> loop: \<open>runs_from base vm nxt\<close> is given the outcome \<open>nxt\<close> of the pull from
  the generator, runs the loop body for a yielded pair and pulls again with the map the
  body left. The result is the list of the runs yielded (each with its \<open>seen\<close> list),
  and the exception that ended the generator, if any. It terminates because every pull
  leaves the scanner strictly further on (\<open>cursor_left\<close> falls).
\<close>

definition cursor_left :: "VisitedMap \<Rightarrow> scan_state \<Rightarrow> nat" where
  "cursor_left vm st = (case st of (byte_pos, rest) \<Rightarrow> 9 * (length (map_bytes vm) - byte_pos) + length rest)"

lemma scan_advances:
  "scan vm byte_pos rest byte = Inr (Some (p, st')) \<Longrightarrow> cursor_left vm st' < cursor_left vm (byte_pos, rest)"
proof (induction vm byte_pos rest byte rule: scan.induct)
  case (1 vm byte_pos byte)
  then show ?case by (auto simp: cursor_left_def bit_table_def split: if_splits)
next
  case (2 vm byte_pos bit_pos bitv rest byte)
  then show ?case by (auto simp: cursor_left_def Let_def split: if_splits)
qed

lemma walk_length:
  "walk base vm n1 n2 run seen = Inr (run', seen', vm') \<Longrightarrow> length (map_bytes vm') = length (map_bytes vm)"
proof (induction base vm n1 n2 run seen rule: walk.induct)
  case (1 base vm n1 n2 run seen)
  show ?case
  proof (cases "visit vm n1 n2")
    case (Inl e)
    with "1.prems" show ?thesis by simp
  next
    case (Inr rv)
    obtain visited vm1 where rv: "rv = (visited, vm1)" by (cases rv)
    from visit_cases[OF Inr[unfolded rv]] have l: "length (map_bytes vm1) = length (map_bytes vm)" by auto
    show ?thesis
    proof (cases visited)
      case True
      with "1.prems" Inr rv l show ?thesis by simp
    next
      case False
      with "1.prems" Inr rv have b: "base \<noteq> 0" by (auto split: if_splits)
      from "1.IH"[OF Inr rv[symmetric] False b] "1.prems" Inr rv False b l show ?thesis by simp
    qed
  qed
qed

fun pull_left :: "VisitedMap \<Rightarrow> (error + ((int \<times> int) \<times> scan_state) option) \<Rightarrow> nat" where
  "pull_left vm (Inr (Some (p, st))) = Suc (cursor_left vm st)"
| "pull_left vm _ = 0"

function runs_from ::
  "int \<Rightarrow> VisitedMap \<Rightarrow> error + ((int \<times> int) \<times> scan_state) option
     \<Rightarrow> (int list \<times> (int \<times> int) list) list \<times> error option"
where
  "runs_from base vm (Inl e) = ([], Some e)"
| "runs_from base vm (Inr None) = ([], None)"
| "runs_from base vm (Inr (Some ((n1, n2), st))) =
     (case walk base vm n1 n2 [] [] of
        Inl e \<Rightarrow> ([], Some e)
      | Inr (run, seen, vm') \<Rightarrow>
          (case runs_from base vm' (resume vm' st) of
             (rs, e) \<Rightarrow> ((run, seen) # rs, e)))"
  by pat_completeness auto
termination
proof (relation "measure (\<lambda>(base, vm, nxt). pull_left vm nxt)", goal_cases)
  case 1
  show ?case by simp
next
  case (2 base vm n1 n2 st x2 run y seen vm')
  from 2 have l: "length (map_bytes vm') = length (map_bytes vm)"
    using walk_length by metis
  obtain bp rest where st: "st = (bp, rest)" by (cases st)
  show ?case
  proof (cases "resume vm' st")
    case (Inl a)
    then show ?thesis by simp
  next
    case (Inr r)
    show ?thesis
    proof (cases r)
      case None
      with Inr show ?thesis by simp
    next
      case (Some a)
      obtain p st' where a: "a = (p, st')" by (cases a)
      from Inr Some a st have "scan vm' bp rest (map_bytes vm' ! bp) = Inr (Some (p, st'))"
        by (auto simp: resume_def split: if_splits)
      from scan_advances[OF this] have "cursor_left vm' st' < cursor_left vm' st" by (simp add: st)
      moreover have "cursor_left vm' st = cursor_left vm st" using l by (simp add: cursor_left_def)
      ultimately show ?thesis using Inr Some a by simp
    qed
  qed
qed

text \<open>
  \<open>modulo_fibonacci_log\<close> is the generator run to its end, with the \<open>seen\<close> lists;
  \<open>modulo_fibonacci\<close> is what the caller receives: the runs and the exception, if any.
\<close>

definition modulo_fibonacci_log :: "int \<Rightarrow> (int list \<times> (int \<times> int) list) list \<times> error option" where
  "modulo_fibonacci_log base =
     (if base \<le> 0 then ([], Some ValueError)
      else case VisitedMap_init base of
             Inl e \<Rightarrow> ([], Some e)
           | Inr visited_map \<Rightarrow> runs_from base visited_map (iterate_free_pairs visited_map))"

definition modulo_fibonacci :: "int \<Rightarrow> int list list \<times> error option" where
  "modulo_fibonacci base = (case modulo_fibonacci_log base of (rs, e) \<Rightarrow> (map fst rs, e))"

subsection \<open>\<^verbatim>\<open>group_by_length\<close>\<close>

text \<open>
  \<^verbatim>\<open>
  def group_by_length(seq: Iterable[list]) -> Dict[int, List[list]]:
      grouped = collections.defaultdict(list)
      for item in seq:
          grouped[len(item)].append(item)
      return collections.OrderedDict(sorted(grouped.items(), reverse=True))
  \<close>
  A dictionary is an association list in insertion order, its keys distinct.
  \<open>append_item k x\<close> is \<^verbatim>\<open>grouped[k].append(x)\<close> on the \<^verbatim>\<open>defaultdict(list)\<close>: a missing
  key is inserted (last) with the bucket \<open>[x]\<close>. \<^verbatim>\<open>sorted(..., reverse=True)\<close> is Python's
  stable descending sort (reverse, sort stably, reverse). It compares the items, which
  are (key, bucket) tuples, and tuples compare by their first differing component: the
  keys of a dictionary differ, so the comparison is the one of the keys.
\<close>

fun append_item :: "nat \<Rightarrow> 'a \<Rightarrow> (nat \<times> 'a list) list \<Rightarrow> (nat \<times> 'a list) list" where
  "append_item k x [] = [(k, [x])]"
| "append_item k x ((k', bucket) # grouped) =
     (if k' = k then (k', bucket @ [x]) # grouped else (k', bucket) # append_item k x grouped)"

definition sorted_reverse :: "(nat \<times> 'a) list \<Rightarrow> (nat \<times> 'a) list" where
  "sorted_reverse items = rev (sort_key fst (rev items))"

definition group_by_length :: "'a list list \<Rightarrow> (nat \<times> 'a list list) list" where
  "group_by_length seq =
     sorted_reverse (fold (\<lambda>item grouped. append_item (length item) item grouped) seq [])"

text \<open>
  The histogram of \<^verbatim>\<open>main\<close>: \<^verbatim>\<open>{k: len(v) for k, v in grouped_runs.items()}\<close>.
\<close>

definition histogram :: "(nat \<times> 'a list) list \<Rightarrow> (nat \<times> nat) list" where
  "histogram grouped_runs = map (\<lambda>(k, v). (k, length v)) grouped_runs"

subsection \<open>\<^verbatim>\<open>Alphabet.dump\<close>\<close>

text \<open>
  An \<^verbatim>\<open>Alphabet\<close> object has the fields \<^verbatim>\<open>length\<close> (here \<open>alength\<close>) and \<^verbatim>\<open>symbols\<close>. Its
  constructor computes them with floating-point logarithms and roots; they are taken as
  given here. The styling strings of the \<^verbatim>\<open>colorama\<close> library, which is not part of this
  program, are the fields of a record that the functions take as a parameter.
\<close>

record Alphabet =
  alength :: int
  symbols :: "string list"

record colorama =
  Style_BRIGHT :: string
  Style_RESET_ALL :: string
  Fore_MAGENTA :: string
  Fore_GREEN :: string
  Fore_YELLOW :: string

text \<open>
  \<^verbatim>\<open>
  def dump(self, runs: Iterable[List[int]]) -> None:
      for run in runs:
          output = [colorama.Style.BRIGHT, colorama.Fore.MAGENTA, self.symbols[run.pop()]]
          if self.length == 1:
              output.append(colorama.Fore.GREEN)
              output.extend(self.symbols[i] for i in run)
          else:
              zebra = (colorama.Fore.GREEN, colorama.Fore.YELLOW)
              output.extend(i
                            for color, item in zip(itertools.cycle(zebra), run)
                            for i in (color, self.symbols[item]))
          output.append(colorama.Style.RESET_ALL)
          print(''.join(output))
  \<close>
  \<open>symbol_at\<close> is \<^verbatim>\<open>self.symbols[i]\<close>; \<open>plain_output\<close> and \<open>zebra_output\<close> are the two
  generator expressions (the \<open>n\<close>-th item takes the colour \<open>zebra[n mod 2]\<close>).
  \<open>dump_run\<close> is the body of the loop for one run: \<^verbatim>\<open>run.pop()\<close> raises \<^verbatim>\<open>IndexError\<close> on an
  empty list and otherwise removes the last element from the list object, which the
  caller still holds. The result is the list as the body leaves it, and the line printed
  or the exception raised. \<open>dump\<close> is the loop: it returns the lists as they are left
  (those after an exception untouched), the lines printed, and the exception, if any.
\<close>

definition symbol_at :: "Alphabet \<Rightarrow> int \<Rightarrow> error + string" where
  "symbol_at self i =
     (case index_of (symbols self) i of
        None \<Rightarrow> Inl IndexError
      | Some j \<Rightarrow> Inr (symbols self ! j))"

fun plain_output :: "Alphabet \<Rightarrow> int list \<Rightarrow> error + string list" where
  "plain_output self [] = Inr []"
| "plain_output self (i # run) =
     (case symbol_at self i of
        Inl e \<Rightarrow> Inl e
      | Inr s \<Rightarrow>
          (case plain_output self run of
             Inl e \<Rightarrow> Inl e
           | Inr out \<Rightarrow> Inr (s # out)))"

fun zebra_output :: "colorama \<Rightarrow> Alphabet \<Rightarrow> nat \<Rightarrow> int list \<Rightarrow> error + string list" where
  "zebra_output c self n [] = Inr []"
| "zebra_output c self n (item # run) =
     (case symbol_at self item of
        Inl e \<Rightarrow> Inl e
      | Inr s \<Rightarrow>
          (case zebra_output c self (Suc n) run of
             Inl e \<Rightarrow> Inl e
           | Inr out \<Rightarrow> Inr ((if even n then Fore_GREEN c else Fore_YELLOW c) # s # out)))"

definition dump_run :: "colorama \<Rightarrow> Alphabet \<Rightarrow> int list \<Rightarrow> int list \<times> (error + string)" where
  "dump_run c self run =
     (if run = [] then ([], Inl IndexError)
      else
        let popped = last run; run' = butlast run in
        (run',
         case symbol_at self popped of
           Inl e \<Rightarrow> Inl e
         | Inr s \<Rightarrow>
             (case (if alength self = 1
                    then (case plain_output self run' of
                            Inl e \<Rightarrow> Inl e
                          | Inr out \<Rightarrow> Inr (Fore_GREEN c # out))
                    else zebra_output c self 0 run') of
                Inl e \<Rightarrow> Inl e
              | Inr out \<Rightarrow>
                  Inr (concat ([Style_BRIGHT c, Fore_MAGENTA c, s] @ out @ [Style_RESET_ALL c])))))"

fun dump :: "colorama \<Rightarrow> Alphabet \<Rightarrow> int list list \<Rightarrow> int list list \<times> string list \<times> error option" where
  "dump c self [] = ([], [], None)"
| "dump c self (run # runs) =
     (case dump_run c self run of
        (run', Inl e) \<Rightarrow> (run' # runs, [], Some e)
      | (run', Inr line) \<Rightarrow>
          (case dump c self runs of
             (runs', lines, e) \<Rightarrow> (run' # runs', line # lines, e)))"

text \<open>The values that \<^verbatim>\<open>colorama\<close> gives these constants: the ANSI escape sequences.\<close>

definition ansi :: colorama where
  "ansi = \<lparr>Style_BRIGHT = CHR 0x1B # ''[1m'', Style_RESET_ALL = CHR 0x1B # ''[0m'',
            Fore_MAGENTA = CHR 0x1B # ''[35m'', Fore_GREEN = CHR 0x1B # ''[32m'',
            Fore_YELLOW = CHR 0x1B # ''[33m''\<rparr>"

section \<open>The vocabulary of the claims\<close>

subsection \<open>The map of the data model\<close>

text \<open>
  \<open>ceil8 x\<close> is the exact ceiling of \<open>x / 8\<close>, the number of bytes that hold \<open>x\<close> bits, and
  \<open>zeroed_map s\<close> the map of side \<open>\<bar>s\<bar>\<close> with \<open>ceil8 (s\<^sup>2)\<close> zero bytes. The constructor
  builds it when the float quotient is exact (\<open>VisitedMap_init_exact\<close> below), which is
  so for \<open>s\<^sup>2 < 2^53\<close>.
\<close>

definition ceil8 :: "int \<Rightarrow> int" where
  "ceil8 x = - ((- x) div 8)"

definition zeroed_map :: "int \<Rightarrow> VisitedMap" where
  "zeroed_map s = \<lparr>side = \<bar>s\<bar>, map_bytes = replicate (nat (ceil8 (s * s))) 0\<rparr>"

subsection \<open>Calling \<^verbatim>\<open>visit\<close> repeatedly\<close>

text \<open>
  \<open>visit_repeat n vm n1 n2\<close>: a caller makes \<open>n\<close> successive calls
  \<^verbatim>\<open>vm.visit(n1, n2)\<close> on the same map; the result is the list of the truth values
  returned, in order, and the map after the last call.
\<close>

fun visit_repeat :: "nat \<Rightarrow> VisitedMap \<Rightarrow> int \<Rightarrow> int \<Rightarrow> error + (bool list \<times> VisitedMap)" where
  "visit_repeat 0 vm n1 n2 = Inr ([], vm)"
| "visit_repeat (Suc n) vm n1 n2 =
     (case visit vm n1 n2 of
        Inl e \<Rightarrow> Inl e
      | Inr (r, vm') \<Rightarrow>
          (case visit_repeat n vm' n1 n2 of
             Inl e \<Rightarrow> Inl e
           | Inr (rs, vm'') \<Rightarrow> Inr (r # rs, vm'')))"

subsection \<open>The state space and the visited pairs\<close>

text \<open>
  The vocabulary of the claims about the enumeration. \<open>cells base\<close> is the state space,
  the ordered pairs of residues; \<open>step base\<close> is the recurrence
  \<open>(a, b) \<mapsto> (b, (a + b) mod base)\<close> that the loop applies; \<open>flat vm (a, b)\<close> is the flat
  index \<open>a * side + b\<close> of a pair; \<open>visited vm\<close> is the set of pairs whose bit is set;
  \<open>closed_map base vm\<close> is the invariant of the \<^verbatim>\<open>for\<close> loop: the map is the one built for
  \<open>base\<close>, no bit beyond the state space is set, and the visited pairs are closed under
  the recurrence.
\<close>

definition cells :: "int \<Rightarrow> (int \<times> int) set" where
  "cells base = {0..<base} \<times> {0..<base}"

definition step :: "int \<Rightarrow> int \<times> int \<Rightarrow> int \<times> int" where
  "step base x = (snd x, (fst x + snd x) mod base)"

definition flat :: "VisitedMap \<Rightarrow> int \<times> int \<Rightarrow> nat" where
  "flat vm x = nat (fst x * side vm + snd x)"

definition visited :: "VisitedMap \<Rightarrow> (int \<times> int) set" where
  "visited vm = {x \<in> cells (side vm). is_set vm (flat vm x)}"

definition closed_map :: "int \<Rightarrow> VisitedMap \<Rightarrow> bool" where
  "closed_map base vm \<longleftrightarrow>
     0 < base \<and> side vm = base \<and> length (map_bytes vm) = nat (ceil8 (base * base))
     \<and> (\<forall>p. is_set vm p \<longrightarrow> int p < base * base)
     \<and> step base ` visited vm \<subseteq> visited vm"

text \<open>
  \<open>traversed base\<close>: the state pairs the enumeration went through (those on which
  \<open>visit\<close> returned \<^verbatim>\<open>False\<close>), over all runs, in order.
\<close>

definition traversed :: "int \<Rightarrow> (int \<times> int) list" where
  "traversed base = concat (map snd (fst (modulo_fibonacci_log base)))"

subsection \<open>A consumer of \<^verbatim>\<open>iterate_free_pairs\<close>\<close>

text \<open>
  Any caller of the generator: between two pulls it may call \<^verbatim>\<open>visit\<close> on pairs of its
  choice (as the loop of \<^verbatim>\<open>modulo_fibonacci\<close> does). \<open>visit_all vm ps\<close> is the map after the
  calls \<^verbatim>\<open>vm.visit(n1, n2)\<close> for the pairs of \<open>ps\<close> in order, whatever they return or raise.
  \<open>consumer\<close> chooses the pairs from the pairs yielded so far. \<open>pulls\<close> drives the
  generator to its end and returns the pairs it yields, each with the map as it is at
  that yield; \<open>scan_yields consumer vm\<close> is the whole iteration, from the first pull.
\<close>

fun visit_all :: "VisitedMap \<Rightarrow> (int \<times> int) list \<Rightarrow> VisitedMap" where
  "visit_all vm [] = vm"
| "visit_all vm ((n1, n2) # ps) =
     (case visit vm n1 n2 of
        Inl e \<Rightarrow> visit_all vm ps
      | Inr (r, vm') \<Rightarrow> visit_all vm' ps)"

lemma visit_all_frame:
  "length (map_bytes (visit_all vm ps)) = length (map_bytes vm) \<and> side (visit_all vm ps) = side vm"
proof (induction ps arbitrary: vm)
  case Nil
  show ?case by simp
next
  case (Cons x ps)
  obtain n1 n2 where x: "x = (n1, n2)" by (cases x)
  show ?case
  proof (cases "visit vm n1 n2")
    case (Inl e)
    with Cons x show ?thesis by simp
  next
    case (Inr rv)
    obtain r vm' where rv: "rv = (r, vm')" by (cases rv)
    from visit_cases[OF Inr[unfolded rv]] Cons[of vm'] Inr rv x show ?thesis by auto
  qed
qed

function pulls ::
  "((int \<times> int) list \<Rightarrow> (int \<times> int) list) \<Rightarrow> (int \<times> int) list \<Rightarrow> VisitedMap
     \<Rightarrow> error + ((int \<times> int) \<times> scan_state) option \<Rightarrow> ((int \<times> int) \<times> VisitedMap) list"
where
  "pulls consumer hist vm (Inl e) = []"
| "pulls consumer hist vm (Inr None) = []"
| "pulls consumer hist vm (Inr (Some (pair, st))) =
     (pair, vm) # pulls consumer (hist @ [pair]) (visit_all vm (consumer (hist @ [pair])))
                    (resume (visit_all vm (consumer (hist @ [pair]))) st)"
  by pat_completeness auto
termination
proof (relation "measure (\<lambda>(consumer, hist, vm, nxt). pull_left vm nxt)", goal_cases)
  case 1
  show ?case by simp
next
  case (2 consumer hist vm pair st)
  let ?vm = "visit_all vm (consumer (hist @ [pair]))"
  have l: "length (map_bytes ?vm) = length (map_bytes vm)" using visit_all_frame by simp
  obtain bp rest where st: "st = (bp, rest)" by (cases st)
  show ?case
  proof (cases "resume ?vm st")
    case (Inl a)
    then show ?thesis by simp
  next
    case (Inr r)
    show ?thesis
    proof (cases r)
      case None
      with Inr show ?thesis by simp
    next
      case (Some a)
      obtain p st' where a: "a = (p, st')" by (cases a)
      from Inr Some a st have "scan ?vm bp rest (map_bytes ?vm ! bp) = Inr (Some (p, st'))"
        by (auto simp: resume_def split: if_splits)
      from scan_advances[OF this] have "cursor_left ?vm st' < cursor_left ?vm st" by (simp add: st)
      moreover have "cursor_left ?vm st = cursor_left vm st" using l by (simp add: cursor_left_def)
      ultimately show ?thesis using Inr Some a by simp
    qed
  qed
qed

definition scan_yields ::
  "((int \<times> int) list \<Rightarrow> (int \<times> int) list) \<Rightarrow> VisitedMap \<Rightarrow> ((int \<times> int) \<times> VisitedMap) list" where
  "scan_yields consumer vm = pulls consumer [] vm (iterate_free_pairs vm)"

section \<open>Facts about the bitmap\<close>

lemma flat_index_bound:
  assumes "0 \<le> a" "a < s" "0 \<le> b" "b < (s::int)"
  shows "0 \<le> a * s + b" and "a * s + b < s * s"
proof -
  show "0 \<le> a * s + b" using assms by simp
  have "a + 1 \<le> s" using assms by simp
  then have "(a + 1) * s \<le> s * s" using assms by (intro mult_right_mono) auto
  then show "a * s + b < s * s" using assms by (simp add: algebra_simps)
qed

lemma ceil8_covers: "0 \<le> x \<Longrightarrow> y < x \<Longrightarrow> 0 \<le> y \<Longrightarrow> nat y < 8 * nat (ceil8 x)"
  unfolding ceil8_def by linarith

lemma is_set_zero: "map_bytes vm = replicate n 0 \<Longrightarrow> \<not> is_set vm p"
  by (auto simp: is_set_def)

lemma is_set_init [simp]: "\<not> is_set (zeroed_map s) p"
  by (rule is_set_zero) (simp add: zeroed_map_def)

lemma or_mask_id:
  assumes "k < 8" and "bit (w::byte) k"
  shows "w OR push_bit k 1 = w"
proof (rule bit_eqI)
  fix n
  show "bit (w OR push_bit k 1) n = bit w n"
    using bit_or_mask[OF assms(1), of w n] assms(2) by auto
qed

lemma visit_again:
  assumes "visit vm n1 n2 = Inr (True, vm')"
  shows "vm' = vm"
proof -
  define pos where "pos = n1 * side vm + n2"
  define k where "k = nat (pos mod 8)"
  have k: "k < 8" unfolding k_def by simp
  from assms obtain j where j: "index_of (map_bytes vm) (pos div 8) = Some j"
    and r: "map_bytes vm ! j AND push_bit k 1 \<noteq> 0"
    and vm': "vm' = vm\<lparr>map_bytes := (map_bytes vm)[j := map_bytes vm ! j OR push_bit k 1]\<rparr>"
    by (auto simp: visit_def Let_def pos_def k_def split: option.splits)
  from r test_mask[OF k, of "map_bytes vm ! j"] have "bit (map_bytes vm ! j) k" by simp
  from or_mask_id[OF k this] have "map_bytes vm ! j OR push_bit k 1 = map_bytes vm ! j" .
  then have "(map_bytes vm)[j := map_bytes vm ! j OR push_bit k 1] = map_bytes vm"
    by (simp only: list_update_id)
  with vm' show ?thesis by simp
qed

section \<open>Facts about \<open>group_by_length\<close>\<close>

lemma fst_append_item:
  "map fst (append_item k x g) = (if k \<in> fst ` set g then map fst g else map fst g @ [k])"
  by (induction g) (force simp: image_iff)+

lemma map_of_append_item:
  "map_of (append_item k x g) =
     (map_of g)(k \<mapsto> (case map_of g k of None \<Rightarrow> [x] | Some b \<Rightarrow> b @ [x]))"
  by (induction g) (auto simp: fun_eq_iff)

lemma grouped_fold:
  fixes seq :: "'a list list"
  defines "g \<equiv> fold (\<lambda>item grouped. append_item (length item) item grouped) seq []"
  shows "distinct (map fst g)"
    and "set (map fst g) = length ` set seq"
    and "map_of g k = (if k \<in> length ` set seq then Some (filter (\<lambda>item. length item = k) seq) else None)"
  unfolding g_def
proof (induction seq arbitrary: k rule: rev_induct)
  case Nil
  { case 1 show ?case by simp next
    case 2 show ?case by simp next
    case 3 show ?case by simp }
next
  case (snoc x xs)
  let ?g = "fold (\<lambda>item grouped. append_item (length item) item grouped) xs []"
  { case 1 show ?case using snoc(1,2) by (auto simp: fst_append_item)
  next
    case 2 show ?case using snoc(2) by (auto simp: fst_append_item)
  next
    case 3 show ?case using snoc(3) by (auto simp: map_of_append_item filter_empty_conv image_iff) }
qed

lemma fst_sorted_reverse: "sorted (rev (map fst (sorted_reverse g)))"
  by (simp add: sorted_reverse_def rev_map)

lemma set_sorted_reverse: "set (sorted_reverse g) = set g"
  by (simp add: sorted_reverse_def)

lemma distinct_fst_sorted_reverse: "distinct (map fst (sorted_reverse g)) = distinct (map fst g)"
proof -
  have "mset (map fst (sorted_reverse g)) = mset (map fst g)"
    unfolding sorted_reverse_def by simp
  then show ?thesis by (rule mset_eq_imp_distinct_iff)
qed

section \<open>Facts about \<open>dump\<close>\<close>

lemma dump_run_pops: "fst (dump_run c self run) = butlast run"
  by (simp add: dump_run_def Let_def)

section \<open>The scanner and the enumeration\<close>

lemma bit_table_nth: "k < 8 \<Longrightarrow> bit_table ! k = (k, push_bit k 1)"
proof -
  assume "k < 8"
  then have "k \<in> {0, 1, 2, 3, 4, 5, 6, 7}" by auto
  then show ?thesis by (auto simp: bit_table_def)
qed

lemma length_bit_table [simp]: "length bit_table = 8"
  by (simp add: bit_table_def)

lemma drop_bit_table_Cons:
  assumes "drop k bit_table = (bit_pos, bitv) # rest"
  shows "k < 8 \<and> bit_pos = k \<and> bitv = push_bit k 1 \<and> rest = drop (Suc k) bit_table"
proof -
  have k: "k < 8" using assms by (cases "k < 8") auto
  then have "drop k bit_table = bit_table ! k # drop (Suc k) bit_table"
    by (simp add: Cons_nth_drop_Suc)
  with assms k show ?thesis by (auto simp: bit_table_nth)
qed

lemma drop_bit_table_Nil: "drop k bit_table = [] \<longleftrightarrow> 8 \<le> k"
  by simp

lemma div_ge_iff_int:
  assumes "0 < s"
  shows "(s \<le> x div s) = (s * s \<le> (x::int))"
proof
  assume "s \<le> x div s"
  then have "s * s \<le> s * (x div s)" using assms by (intro mult_left_mono) auto
  also have "s * (x div s) = x - x mod s" by (simp add: algebra_simps minus_mod_eq_mult_div)
  also have "\<dots> \<le> x" using assms by simp
  finally show "s * s \<le> x" .
next
  assume "s * s \<le> x"
  then have "(s * s) div s \<le> x div s" using assms by (intro zdiv_mono1) auto
  then show "s \<le> x div s" using assms by simp
qed

lemma scan_spec:
  assumes "0 < side vm" and "byte_pos < length (map_bytes vm)" and "k \<le> 8"
    and "rest = drop k bit_table" and "byte = map_bytes vm ! byte_pos"
  shows "case scan vm byte_pos rest byte of
           Inl e \<Rightarrow> False
         | Inr None \<Rightarrow>
             (\<forall>q. 8 * byte_pos + k \<le> q \<and> q < 8 * length (map_bytes vm)
                  \<and> int q < side vm * side vm \<longrightarrow> is_set vm q)
         | Inr (Some ((n1, n2), st)) \<Rightarrow>
             (\<exists>p. 8 * byte_pos + k \<le> p \<and> p < 8 * length (map_bytes vm) \<and> \<not> is_set vm p
                  \<and> (\<forall>q. 8 * byte_pos + k \<le> q \<and> q < p \<longrightarrow> is_set vm q)
                  \<and> int p < side vm * side vm
                  \<and> n1 = int p div side vm \<and> n2 = int p mod side vm
                  \<and> st = (p div 8, drop (Suc (p mod 8)) bit_table))"
  using assms
proof (induction vm byte_pos rest byte arbitrary: k rule: scan.induct)
  case (1 vm byte_pos byte)
  from "1.prems" have k: "k = 8" by simp
  show ?case
  proof (cases "Suc byte_pos < length (map_bytes vm)")
    case True
    have c: "8 * Suc byte_pos + 0 = 8 * byte_pos + k" using k by simp
    have "scan vm byte_pos [] byte = scan vm (Suc byte_pos) bit_table (map_bytes vm ! Suc byte_pos)"
      using True by simp
    with "1.IH"[OF True "1.prems"(1) True, of 0] show ?thesis
      unfolding c by simp
  next
    case False
    then show ?thesis using k by auto
  qed
next
  case (2 vm byte_pos bit_pos bitv rest byte)
  from drop_bit_table_Cons[OF "2.prems"(4)[symmetric]]
  have k: "k < 8" and bp: "bit_pos = k" and bv: "bitv = push_bit k 1"
    and rest: "rest = drop (Suc k) bit_table" by auto
  let ?p = "8 * byte_pos + k"
  have d: "?p div 8 = byte_pos" "?p mod 8 = k" using k by auto
  have pl: "?p < 8 * length (map_bytes vm)" using "2.prems"(2) k by simp
  have set_p: "is_set vm ?p \<longleftrightarrow> byte AND bitv \<noteq> 0"
    using test_mask[OF k, of byte] "2.prems"(5) pl d by (simp add: is_set_def bv)
  show ?case
  proof (cases "byte AND bitv = 0")
    case True
    have pos: "int byte_pos * 8 + int bit_pos = int ?p" by (simp add: bp)
    have nz: "side vm \<noteq> 0" using "2.prems"(1) by simp
    have eq: "scan vm byte_pos ((bit_pos, bitv) # rest) byte =
        (if side vm \<le> int ?p div side vm then Inr None
         else Inr (Some ((int ?p div side vm, int ?p mod side vm), byte_pos, rest)))"
      unfolding scan.simps Let_def pos using True nz by simp
    show ?thesis
    proof (cases "side vm \<le> int ?p div side vm")
      case ge: True
      then have "side vm * side vm \<le> int ?p" using div_ge_iff_int[OF "2.prems"(1)] by simp
      then have "\<not> (8 * byte_pos + k \<le> q \<and> int q < side vm * side vm)" for q by auto
      then show ?thesis unfolding eq using ge by auto
    next
      case lt: False
      then have "int ?p < side vm * side vm"
        using div_ge_iff_int[OF "2.prems"(1), of "int ?p"] by simp
      moreover have "\<not> is_set vm ?p" using set_p True by simp
      moreover have "(byte_pos, rest) = (?p div 8, drop (Suc (?p mod 8)) bit_table)"
        using d rest by simp
      ultimately have "\<exists>p. 8 * byte_pos + k \<le> p \<and> p < 8 * length (map_bytes vm) \<and> \<not> is_set vm p
                  \<and> (\<forall>q. 8 * byte_pos + k \<le> q \<and> q < p \<longrightarrow> is_set vm q)
                  \<and> int p < side vm * side vm
                  \<and> int ?p div side vm = int p div side vm \<and> int ?p mod side vm = int p mod side vm
                  \<and> (byte_pos, rest) = (p div 8, drop (Suc (p mod 8)) bit_table)"
        using pl by (intro exI[of _ ?p]) auto
      then show ?thesis unfolding eq using lt by simp
    qed
  next
    case False
    then have sp: "is_set vm ?p" using set_p by simp
    have le: "Suc k \<le> 8" using k by simp
    have ext: "8 * byte_pos + k \<le> q \<longleftrightarrow> q = ?p \<or> 8 * byte_pos + Suc k \<le> q" for q by auto
    have eqn: "scan vm byte_pos ((bit_pos, bitv) # rest) byte = scan vm byte_pos rest byte"
      using False by simp
    from "2.IH"[OF False "2.prems"(1,2) le rest "2.prems"(5)] sp show ?thesis
      unfolding eqn by (auto split: sum.splits option.splits simp: ext)
  qed
qed

lemma finite_cells [simp]: "finite (cells base)"
  by (simp add: cells_def)

lemma card_cells: "0 \<le> base \<Longrightarrow> card (cells base) = nat (base * base)"
  by (simp add: cells_def nat_mult_distrib)

lemma flat_int:
  assumes "x \<in> cells (side vm)"
  shows "int (flat vm x) = fst x * side vm + snd x" and "int (flat vm x) < side vm * side vm"
proof -
  obtain a b where x: "x = (a, b)" by (cases x)
  with assms have r: "0 \<le> a" "a < side vm" "0 \<le> b" "b < side vm" by (auto simp: cells_def)
  from flat_index_bound[OF r] show "int (flat vm x) = fst x * side vm + snd x"
    and "int (flat vm x) < side vm * side vm" by (simp_all add: flat_def x)
qed

lemma flat_inj:
  assumes "x \<in> cells (side vm)" "y \<in> cells (side vm)" "flat vm x = flat vm y"
  shows "x = y"
proof -
  obtain a b where x: "x = (a, b)" by (cases x)
  obtain c d where y: "y = (c, d)" by (cases y)
  from assms x y have r: "0 \<le> b" "b < side vm" "0 \<le> d" "d < side vm" by (auto simp: cells_def)
  from flat_int(1)[OF assms(1)] flat_int(1)[OF assms(2)] assms(3)
  have e: "a * side vm + b = c * side vm + d" by (simp add: x y)
  then have "(a * side vm + b) div side vm = (c * side vm + d) div side vm"
    and "(a * side vm + b) mod side vm = (c * side vm + d) mod side vm" by simp_all
  with r show ?thesis by (simp add: x y)
qed

lemma unflat:
  assumes "0 < side vm" "int p < side vm * side vm"
  shows "(int p div side vm, int p mod side vm) \<in> cells (side vm)"
    and "flat vm (int p div side vm, int p mod side vm) = p"
proof -
  have "\<not> side vm \<le> int p div side vm" using div_ge_iff_int[OF assms(1), of "int p"] assms(2) by simp
  moreover have "0 \<le> int p div side vm" using assms(1) by (simp add: pos_imp_zdiv_nonneg_iff)
  ultimately show "(int p div side vm, int p mod side vm) \<in> cells (side vm)"
    using assms(1) by (simp add: cells_def)
  show "flat vm (int p div side vm, int p mod side vm) = p"
    by (simp add: flat_def)
qed

lemma step_cells: "0 < base \<Longrightarrow> x \<in> cells base \<Longrightarrow> step base x \<in> cells base"
  by (auto simp: cells_def step_def)

lemma step_inj: "inj_on (step base) (cells base)"
proof (rule inj_onI)
  fix x y assume x: "x \<in> cells base" and y: "y \<in> cells base" and e: "step base x = step base y"
  obtain a b where xe: "x = (a, b)" by (cases x)
  obtain c d where ye: "y = (c, d)" by (cases y)
  from e have bd: "b = d" and m: "(a + b) mod base = (c + d) mod base" by (auto simp: step_def xe ye)
  have m': "(a + b) mod base = (c + b) mod base" using m by (simp add: bd)
  have "(a + b - b) mod base = (c + b - b) mod base" by (rule mod_diff_cong[OF m' refl])
  then have "a mod base = c mod base" by simp
  moreover from x y have "0 \<le> a" "a < base" "0 \<le> c" "c < base" by (auto simp: cells_def xe ye)
  ultimately show "x = y" using bd by (simp add: xe ye)
qed

lemma back_closed:
  assumes "V \<subseteq> cells base" "step base ` V \<subseteq> V" "x \<in> cells base" "step base x \<in> V"
  shows "x \<in> V"
proof -
  have fin: "finite V" using assms(1) by (rule finite_subset) simp
  have inj: "inj_on (step base) V" using step_inj assms(1) by (rule inj_on_subset)
  from endo_inj_surj[OF fin assms(2) inj] have "step base ` V = V" .
  with assms(4) have "step base x \<in> step base ` V" by simp
  then obtain y where y: "y \<in> V" "step base y = step base x" by force
  with assms(1,3) inj_onD[OF step_inj[of base], of y x] have "y = x" by auto
  with y show ?thesis by simp
qed

lemma visit_cell:
  assumes "side vm = base" and "length (map_bytes vm) = nat (ceil8 (base * base))"
    and "(a, b) \<in> cells base"
  shows "\<exists>vm'. visit vm a b = Inr ((a, b) \<in> visited vm, vm')
           \<and> visited vm' = insert (a, b) (visited vm)
           \<and> side vm' = base \<and> length (map_bytes vm') = length (map_bytes vm)
           \<and> (\<forall>q. is_set vm' q = (is_set vm q \<or> q = flat vm (a, b)))"
proof -
  from assms(3) have r: "0 \<le> a" "a < side vm" "0 \<le> b" "b < side vm"
    by (auto simp: cells_def assms(1))
  note fb = flat_index_bound[OF r]
  have "nat (a * side vm + b) < 8 * length (map_bytes vm)"
    unfolding assms(2) assms(1)[symmetric] using fb by (intro ceil8_covers) auto
  from visit_in_range[OF fb(1) this] obtain vm' where
    v: "visit vm a b = Inr (is_set vm (flat vm (a, b)), vm')"
    and q: "\<And>q. is_set vm' q = (is_set vm q \<or> q = flat vm (a, b))"
    and l: "length (map_bytes vm') = length (map_bytes vm)" and s: "side vm' = side vm"
    by (auto simp: flat_def)
  have c: "(a, b) \<in> cells (side vm)" using assms by simp
  have f: "flat vm' x = flat vm x" for x by (simp add: flat_def s)
  have "visited vm' = insert (a, b) (visited vm)"
    using c flat_inj[OF _ c] by (auto simp: visited_def s q f)
  moreover have "is_set vm (flat vm (a, b)) = ((a, b) \<in> visited vm)"
    using c by (simp add: visited_def)
  ultimately show ?thesis using v q l s assms(1) by auto
qed

lemma walk_spec:
  assumes "0 < base" and "side vm = base"
    and "length (map_bytes vm) = nat (ceil8 (base * base))"
    and "\<forall>p. is_set vm p \<longrightarrow> int p < base * base"
    and "(n1, n2) \<in> cells base"
    and "V0 \<subseteq> cells base" and "step base ` V0 \<subseteq> V0" and "(n1, n2) \<notin> V0"
    and "visited vm = V0 \<union> set seen"
    and "set seen \<subseteq> cells base" and "V0 \<inter> set seen = {}" and "distinct seen"
    and "step base ` set seen \<subseteq> insert (n1, n2) (set seen)"
    and "run = map snd seen"
    and "seen \<noteq> [] \<or> (n1, n2) \<notin> visited vm"
  shows "\<exists>seen' vm'. walk base vm n1 n2 run seen = Inr (map snd seen', seen', vm')
           \<and> seen' \<noteq> [] \<and> distinct seen' \<and> set seen' \<subseteq> cells base \<and> V0 \<inter> set seen' = {}
           \<and> set seen \<subseteq> set seen' \<and> (n1, n2) \<in> set seen'
           \<and> visited vm' = V0 \<union> set seen' \<and> closed_map base vm'"
  using assms
proof (induction base vm n1 n2 run seen rule: walk.induct)
  case (1 base vm n1 n2 run seen)
  from visit_cell[OF "1.prems"(2,3,5)] obtain vm1 where
    v: "visit vm n1 n2 = Inr ((n1, n2) \<in> visited vm, vm1)"
    and vis1: "visited vm1 = insert (n1, n2) (visited vm)"
    and s1: "side vm1 = base" and l1: "length (map_bytes vm1) = length (map_bytes vm)"
    and q1: "\<And>q. is_set vm1 q = (is_set vm q \<or> q = flat vm (n1, n2))"
    by blast
  have c: "(n1, n2) \<in> cells (side vm)" using "1.prems"(2,5) by simp
  have b1: "\<forall>p. is_set vm1 p \<longrightarrow> int p < base * base"
    using "1.prems"(4) flat_int(2)[OF c] "1.prems"(2) by (auto simp: q1)
  show ?case
  proof (cases "(n1, n2) \<in> visited vm")
    case True
    with "1.prems"(8,9) have in_seen: "(n1, n2) \<in> set seen" by auto
    have vis: "visited vm1 = V0 \<union> set seen" using vis1 True "1.prems"(9) by auto
    have "step base ` visited vm1 \<subseteq> visited vm1"
      unfolding vis using "1.prems"(7,13) in_seen by auto
    then have "closed_map base vm1"
      using "1.prems"(1,3) s1 l1 b1 by (simp add: closed_map_def)
    moreover have "walk base vm n1 n2 run seen = Inr (map snd seen, seen, vm1)"
      using v True "1.prems"(14) by simp
    moreover have "seen \<noteq> []" using in_seen by auto
    ultimately show ?thesis using "1.prems"(10,11,12) vis in_seen by blast
  next
    case False
    have b: "base \<noteq> 0" using "1.prems"(1) by simp
    let ?seen = "seen @ [(n1, n2)]"
    let ?n = "(n1 + n2) mod base"
    have nxt: "(n2, ?n) = step base (n1, n2)" by (simp add: step_def)
    have nc: "(n2, ?n) \<in> cells base"
      unfolding nxt using "1.prems"(1,5) by (rule step_cells)
    have nV: "(n2, ?n) \<notin> V0"
      using back_closed[OF "1.prems"(6,7,5)] "1.prems"(8) unfolding nxt by blast
    have notin: "(n1, n2) \<notin> set seen" using False "1.prems"(9) by auto
    have w: "walk base vm n1 n2 run seen = walk base vm1 n2 ?n (run @ [n2]) ?seen"
      using v False b by simp
    have "\<exists>seen' vm'. walk base vm1 n2 ?n (run @ [n2]) ?seen = Inr (map snd seen', seen', vm')
           \<and> seen' \<noteq> [] \<and> distinct seen' \<and> set seen' \<subseteq> cells base \<and> V0 \<inter> set seen' = {}
           \<and> set ?seen \<subseteq> set seen' \<and> (n2, ?n) \<in> set seen'
           \<and> visited vm' = V0 \<union> set seen' \<and> closed_map base vm'"
    proof (rule "1.IH"[OF v refl False b "1.prems"(1) s1 _ b1 nc "1.prems"(6,7) nV])
      show "length (map_bytes vm1) = nat (ceil8 (base * base))" using l1 "1.prems"(3) by simp
      show "visited vm1 = V0 \<union> set ?seen" using vis1 "1.prems"(9) by auto
      show "set ?seen \<subseteq> cells base" using "1.prems"(5,10) by auto
      show "V0 \<inter> set ?seen = {}" using "1.prems"(8,11) by auto
      show "distinct ?seen" using "1.prems"(12) notin by simp
      show "step base ` set ?seen \<subseteq> insert (n2, ?n) (set ?seen)"
        using "1.prems"(13) nxt by auto
      show "run @ [n2] = map snd ?seen" using "1.prems"(14) by simp
      show "?seen \<noteq> [] \<or> (n2, ?n) \<notin> visited vm1" by simp
    qed
    then show ?thesis unfolding w by auto
  qed
qed

lemma is_set_visited:
  assumes "closed_map base vm" and "int q < base * base"
  shows "is_set vm q \<longleftrightarrow> (int q div base, int q mod base) \<in> visited vm"
proof -
  from assms(1) have s: "0 < side vm" "side vm = base" by (simp_all add: closed_map_def)
  from unflat[OF s(1), of q] assms(2) s(2) show ?thesis by (simp add: visited_def)
qed

lemma closed_map_length:
  "closed_map base vm \<Longrightarrow> closed_map base vm' \<Longrightarrow> length (map_bytes vm') = length (map_bytes vm)"
  by (simp add: closed_map_def)

lemma closed_map_covers:
  assumes "closed_map base vm" and "int q < base * base"
  shows "q < 8 * length (map_bytes vm)"
proof -
  from assms(1) have l: "length (map_bytes vm) = nat (ceil8 (base * base))"
    by (simp add: closed_map_def)
  from ceil8_covers[of "base * base" "int q"] assms(2) show ?thesis by (simp add: l)
qed

lemma runs_from_spec:
  assumes "closed_map base vm" and "bp < length (map_bytes vm)" and "k \<le> 8"
    and "\<forall>q. q < 8 * bp + k \<and> int q < base * base \<longrightarrow> is_set vm q"
    and "nxt = resume vm (bp, drop k bit_table)"
  shows "\<exists>rs. runs_from base vm nxt = (rs, None)
           \<and> (\<forall>r \<in> set rs. fst r = map snd (snd r) \<and> snd r \<noteq> [])
           \<and> distinct (concat (map snd rs))
           \<and> set (concat (map snd rs)) = cells base - visited vm"
  using assms
proof (induction base vm nxt arbitrary: bp k rule: runs_from.induct)
  case (1 base vm e)
  from "1.prems"(1) have s: "0 < side vm" by (simp add: closed_map_def)
  from scan_spec[OF s "1.prems"(2,3) refl refl] "1.prems"(5)[symmetric] "1.prems"(2)
  show ?case by (simp add: resume_def)
next
  case (2 base vm)
  from "2.prems"(1) have s: "0 < side vm" and sb: "side vm = base" by (simp_all add: closed_map_def)
  from scan_spec[OF s "2.prems"(2,3) refl refl] "2.prems"(5)[symmetric] "2.prems"(2)
  have rest: "\<forall>q. 8 * bp + k \<le> q \<and> q < 8 * length (map_bytes vm) \<and> int q < base * base
                \<longrightarrow> is_set vm q"
    by (simp add: resume_def sb)
  have all: "is_set vm q" if "int q < base * base" for q
  proof (cases "q < 8 * bp + k")
    case True
    with "2.prems"(4) that show ?thesis by simp
  next
    case False
    with rest closed_map_covers[OF "2.prems"(1) that] that show ?thesis by simp
  qed
  have "x \<in> visited vm" if "x \<in> cells base" for x
    using that flat_int(2)[of x vm] all by (simp add: visited_def sb)
  then have "cells base - visited vm = {}" by auto
  then show ?case by simp
next
  case (3 base vm n1 n2 st)
  from "3.prems"(1) have s: "0 < side vm" and sb: "side vm = base" and b: "0 < base"
    and l: "length (map_bytes vm) = nat (ceil8 (base * base))"
    and bound: "\<forall>p. is_set vm p \<longrightarrow> int p < base * base"
    and cl: "step base ` visited vm \<subseteq> visited vm"
    by (simp_all add: closed_map_def)
  from scan_spec[OF s "3.prems"(2,3) refl refl] "3.prems"(5)[symmetric] "3.prems"(2)
  obtain p where p: "8 * bp + k \<le> p" "p < 8 * length (map_bytes vm)" "\<not> is_set vm p"
    and before: "\<forall>q. 8 * bp + k \<le> q \<and> q < p \<longrightarrow> is_set vm q"
    and pb: "int p < base * base"
    and n: "n1 = int p div base" "n2 = int p mod base"
    and st: "st = (p div 8, drop (Suc (p mod 8)) bit_table)"
    by (auto simp: resume_def sb)
  have c: "(n1, n2) \<in> cells base" and f: "flat vm (n1, n2) = p"
    using unflat[OF s, of p] pb by (simp_all add: sb n)
  have nv: "(n1, n2) \<notin> visited vm" using p(3) f by (simp add: visited_def)
  have vc: "visited vm \<subseteq> cells base" by (auto simp: visited_def sb)
  from walk_spec[OF b sb l bound c vc cl nv, of "[]" "[]"] nv
  obtain seen' vm' where w: "walk base vm n1 n2 [] [] = Inr (map snd seen', seen', vm')"
    and sn: "seen' \<noteq> []" and sd: "distinct seen'" and sc: "set seen' \<subseteq> cells base"
    and disj: "visited vm \<inter> set seen' = {}" and start: "(n1, n2) \<in> set seen'"
    and vis': "visited vm' = visited vm \<union> set seen'" and cm': "closed_map base vm'"
    by auto
  have l': "length (map_bytes vm') = length (map_bytes vm)"
    using closed_map_length[OF "3.prems"(1) cm'] .
  have bp': "p div 8 < length (map_bytes vm')" using p(2) l' by simp
  have k': "Suc (p mod 8) \<le> 8" by simp
  have cur: "8 * (p div 8) + Suc (p mod 8) = Suc p" by simp
  have passed: "\<forall>q. q < 8 * (p div 8) + Suc (p mod 8) \<and> int q < base * base \<longrightarrow> is_set vm' q"
    unfolding cur
  proof (intro allI impI)
    fix q assume q: "q < Suc p \<and> int q < base * base"
    have "is_set vm q \<or> q = p" using q "3.prems"(4) before by (cases "q < 8 * bp + k") auto
    then have "(int q div base, int q mod base) \<in> visited vm'"
      using is_set_visited[OF "3.prems"(1), of q] q start vis' n by auto
    then show "is_set vm' q" using is_set_visited[OF cm', of q] q by simp
  qed
  from "3.IH"[OF w refl refl cm' bp' k' passed] st
  obtain rs where r: "runs_from base vm' (resume vm' st) = (rs, None)"
    and rprop: "\<forall>r \<in> set rs. fst r = map snd (snd r) \<and> snd r \<noteq> []"
    and rd: "distinct (concat (map snd rs))"
    and rset: "set (concat (map snd rs)) = cells base - visited vm'"
    by auto
  have res: "runs_from base vm (Inr (Some ((n1, n2), st))) = ((map snd seen', seen') # rs, None)"
    using w r by simp
  have "set (concat (map snd ((map snd seen', seen') # rs))) = cells base - visited vm"
    using rset vis' sc disj by auto
  moreover have "distinct (concat (map snd ((map snd seen', seen') # rs)))"
    using rd sd rset vis' by auto
  ultimately show ?case unfolding res using rprop sn by auto
qed

lemma bit_length_le: "x < 2 ^ k \<Longrightarrow> bit_length x \<le> k"
proof (induction k arbitrary: x)
  case 0
  then show ?case by (subst bit_length.simps) simp
next
  case (Suc k)
  show ?case
  proof (cases "x \<le> 0")
    case True
    then show ?thesis by (subst bit_length.simps) simp
  next
    case False
    from Suc.prems have "x div 2 < 2 ^ k" by simp
    from Suc.IH[OF this] False show ?thesis by (subst bit_length.simps) simp
  qed
qed

lemma math_ceil_div8_exact:
  assumes "x < 2 ^ 53"
  shows "math_ceil_div8 x = Inr (ceil8 x)"
proof -
  have r: "round_to_double x = x"
    using bit_length_le[OF assms] by (simp add: round_to_double_def)
  have "(2::int) ^ 53 \<le> 2 ^ 1027" by (rule power_increasing) simp_all
  with assms have "\<not> 2 ^ 1027 \<le> x" by linarith
  then show ?thesis by (simp add: math_ceil_div8_def r ceil8_def)
qed

text \<open>
  Beyond \<open>2^53\<close> the float quotient can differ from the exact one: for side 94906267 the
  square has 54 bits and is rounded down (a tie, to the even significand), and the map
  gets one byte fewer than \<open>ceil8\<close> of the square.
\<close>

lemma math_ceil_div8_rounds:
  "math_ceil_div8 (94906267 * 94906267) = Inr 1125899939484411"
  "ceil8 (94906267 * 94906267) = 1125899939484412"
  by code_simp+

lemma VisitedMap_init_exact: "s * s < 2 ^ 53 \<Longrightarrow> VisitedMap_init s = Inr (zeroed_map s)"
  by (simp add: VisitedMap_init_def math_ceil_div8_exact zeroed_map_def)

lemma ceil8_pos: "0 < x \<Longrightarrow> 0 < ceil8 x"
  unfolding ceil8_def by linarith

lemma closed_map_init:
  assumes "0 < base"
  shows "closed_map base (zeroed_map base)" and "visited (zeroed_map base) = {}"
    and "0 < length (map_bytes (zeroed_map base))"
proof -
  show v: "visited (zeroed_map base) = {}" by (simp add: visited_def)
  have "side (zeroed_map base) = base"
    and "length (map_bytes (zeroed_map base)) = nat (ceil8 (base * base))"
    using assms by (simp_all add: zeroed_map_def)
  then show "closed_map base (zeroed_map base)"
    using assms v by (simp add: closed_map_def)
  have "0 < base * base" using assms by simp
  from ceil8_pos[OF this] show "0 < length (map_bytes (zeroed_map base))"
    by (simp add: zeroed_map_def)
qed

lemma modulo_fibonacci_log_spec:
  assumes "0 < base" and "base * base < 2 ^ 53"
  shows "\<exists>rs. modulo_fibonacci_log base = (rs, None)
           \<and> (\<forall>r \<in> set rs. fst r = map snd (snd r) \<and> snd r \<noteq> [])
           \<and> distinct (concat (map snd rs))
           \<and> set (concat (map snd rs)) = cells base"
proof -
  let ?vm = "zeroed_map base"
  note i = closed_map_init[OF assms(1)]
  have first: "iterate_free_pairs ?vm = resume ?vm (0, drop 0 bit_table)"
    using i(3) by (simp add: iterate_free_pairs_def resume_def)
  have "\<forall>q. q < 8 * 0 + 0 \<and> int q < base * base \<longrightarrow> is_set ?vm q" by simp
  from runs_from_spec[OF i(1) i(3) _ this first] i(2) assms(1)
  show ?thesis by (simp add: modulo_fibonacci_log_def VisitedMap_init_exact[OF assms(2)])
qed

lemma modulo_fibonacci_runs:
  "fst (modulo_fibonacci base) = map fst (fst (modulo_fibonacci_log base))"
  "snd (modulo_fibonacci base) = snd (modulo_fibonacci_log base)"
  by (simp_all add: modulo_fibonacci_def split: prod.splits)

text \<open>
  What holds of the runs yielded on any map of side \<open>base\<close>, whatever its size, and so
  also when the enumeration ends with an exception.
\<close>

lemma walk_safe:
  assumes "0 < base" and "walk base vm n1 n2 run seen = Inr (run', seen', vm')"
  shows "side vm' = side vm
     \<and> (\<exists>t. run' = run @ t \<and> (\<forall>x \<in> set t. x = n2 \<or> (0 \<le> x \<and> x < base))
            \<and> ((\<forall>vm1. visit vm n1 n2 \<noteq> Inr (True, vm1)) \<longrightarrow> t \<noteq> []))"
  using assms
proof (induction base vm n1 n2 run seen rule: walk.induct)
  case (1 base vm n1 n2 run seen)
  show ?case
  proof (cases "visit vm n1 n2")
    case (Inl e)
    with "1.prems" show ?thesis by simp
  next
    case (Inr rv)
    obtain visited vm1 where rv: "rv = (visited, vm1)" by (cases rv)
    from visit_cases[OF Inr[unfolded rv]] have s1: "side vm1 = side vm" by auto
    show ?thesis
    proof (cases visited)
      case True
      with "1.prems" Inr rv s1 show ?thesis by auto
    next
      case False
      have b: "base \<noteq> 0" using "1.prems"(1) by simp
      have w: "walk base vm1 n2 ((n1 + n2) mod base) (run @ [n2]) (seen @ [(n1, n2)])
                 = Inr (run', seen', vm')"
        using "1.prems"(2) Inr rv False b by simp
      from "1.IH"[OF Inr rv[symmetric] False b "1.prems"(1) w]
      obtain t where s': "side vm' = side vm1" and t: "run' = (run @ [n2]) @ t"
        and el: "\<forall>x \<in> set t. x = (n1 + n2) mod base \<or> (0 \<le> x \<and> x < base)"
        by blast
      have m: "0 \<le> (n1 + n2) mod base \<and> (n1 + n2) mod base < base"
        using "1.prems"(1) by simp
      have "run' = run @ (n2 # t)" using t by simp
      moreover have "\<forall>x \<in> set (n2 # t). x = n2 \<or> (0 \<le> x \<and> x < base)"
        using el m by auto
      moreover have "n2 # t \<noteq> []" by simp
      moreover have "side vm' = side vm" using s' s1 by simp
      ultimately show ?thesis by blast
    qed
  qed
qed

lemma runs_from_safe:
  assumes "0 < base" and "side vm = base" and "bp < length (map_bytes vm)" and "k \<le> 8"
    and "nxt = resume vm (bp, drop k bit_table)"
  shows "\<forall>r \<in> set (fst (runs_from base vm nxt)).
           fst r \<noteq> [] \<and> (\<forall>x \<in> set (fst r). 0 \<le> x \<and> x < base)"
  using assms
proof (induction base vm nxt arbitrary: bp k rule: runs_from.induct)
  case (1 base vm e)
  show ?case by simp
next
  case (2 base vm)
  show ?case by simp
next
  case (3 base vm n1 n2 st)
  have s: "0 < side vm" using "3.prems"(1,2) by simp
  from scan_spec[OF s "3.prems"(3,4) refl refl] "3.prems"(5)[symmetric] "3.prems"(3)
  obtain p where p: "p < 8 * length (map_bytes vm)" "\<not> is_set vm p"
    and n: "n1 = int p div base" "n2 = int p mod base"
    and st: "st = (p div 8, drop (Suc (p mod 8)) bit_table)"
    by (auto simp: resume_def "3.prems"(2))
  show ?case
  proof (cases "walk base vm n1 n2 [] []")
    case (Inl e)
    then show ?thesis by simp
  next
    case (Inr res)
    obtain run seen vm' where res: "res = (run, seen, vm')" by (cases res)
    note w = Inr[unfolded res]
    have pos: "n1 * side vm + n2 = int p" by (simp add: n "3.prems"(2))
    from visit_in_range[of n1 vm n2] p pos
    have "\<exists>vm1. visit vm n1 n2 = Inr (False, vm1)" by auto
    then have first: "\<forall>vm1. visit vm n1 n2 \<noteq> Inr (True, vm1)" by auto
    from walk_safe[OF "3.prems"(1) w] first
    obtain t where s': "side vm' = side vm" and run: "run = t" and ne: "t \<noteq> []"
      and el: "\<forall>x \<in> set t. x = n2 \<or> (0 \<le> x \<and> x < base)" by auto
    have "0 \<le> n2 \<and> n2 < base" using "3.prems"(1) by (simp add: n)
    with el have el': "\<forall>x \<in> set run. 0 \<le> x \<and> x < base" by (auto simp: run)
    have l': "length (map_bytes vm') = length (map_bytes vm)" using walk_length[OF w] .
    have bp': "p div 8 < length (map_bytes vm')" using p(1) l' by simp
    have k': "Suc (p mod 8) \<le> 8" by simp
    have sb': "side vm' = base" using s' "3.prems"(2) by simp
    from "3.IH"[OF w refl refl "3.prems"(1) sb' bp' k'] st
    have rest: "\<forall>r \<in> set (fst (runs_from base vm' (resume vm' st))).
           fst r \<noteq> [] \<and> (\<forall>x \<in> set (fst r). 0 \<le> x \<and> x < base)" by simp
    obtain rs e where r: "runs_from base vm' (resume vm' st) = (rs, e)"
      by (cases "runs_from base vm' (resume vm' st)")
    have "runs_from base vm (Inr (Some ((n1, n2), st))) = ((run, seen) # rs, e)"
      using w r by simp
    with rest r el' ne run show ?thesis by auto
  qed
qed

lemma modulo_fibonacci_log_safe:
  assumes "0 < base"
  shows "\<forall>r \<in> set (fst (modulo_fibonacci_log base)).
           fst r \<noteq> [] \<and> (\<forall>x \<in> set (fst r). 0 \<le> x \<and> x < base)"
proof (cases "VisitedMap_init base")
  case (Inl e)
  with assms show ?thesis by (simp add: modulo_fibonacci_log_def)
next
  case (Inr vm)
  then have s: "side vm = base" using assms
    by (auto simp: VisitedMap_init_def split: sum.splits)
  show ?thesis
  proof (cases "0 < length (map_bytes vm)")
    case True
    then have first: "iterate_free_pairs vm = resume vm (0, drop 0 bit_table)"
      by (simp add: iterate_free_pairs_def resume_def)
    from runs_from_safe[OF assms s True _ first] Inr assms show ?thesis
      by (simp add: modulo_fibonacci_log_def)
  next
    case False
    with Inr assms show ?thesis
      by (simp add: modulo_fibonacci_log_def iterate_free_pairs_def)
  qed
qed

text \<open>
  The base \<open>10^200\<close>: its square has 1329 bits, the quotient by 8 is beyond the range of
  a float, and the constructor raises \<^verbatim>\<open>OverflowError\<close> before any pair is visited.
\<close>

lemma overflow_at_10_200:
  "modulo_fibonacci_log (10 ^ 200) = ([], Some OverflowError)"
  by code_simp

section \<open>Facts about the histogram\<close>

lemma sum_list_filter_split:
  assumes "finite K" and "g ` set xs \<subseteq> K"
  shows "(\<Sum>k\<in>K. sum_list (map f (filter (\<lambda>x. g x = k) xs))) = sum_list (map (f::'a \<Rightarrow> nat) xs)"
  using assms(2)
proof (induction xs)
  case Nil
  show ?case by simp
next
  case (Cons x xs)
  have "(\<Sum>k\<in>K. sum_list (map f (filter (\<lambda>y. g y = k) (x # xs))))
      = (\<Sum>k\<in>K. (if k = g x then f x else 0) + sum_list (map f (filter (\<lambda>y. g y = k) xs)))"
    by (intro sum.cong) auto
  also have "\<dots> = (\<Sum>k\<in>K. if k = g x then f x else 0) + (\<Sum>k\<in>K. sum_list (map f (filter (\<lambda>y. g y = k) xs)))"
    by (simp add: sum.distrib)
  also have "(\<Sum>k\<in>K. if k = g x then f x else 0) = f x"
    using assms(1) Cons.prems by (simp add: sum.delta)
  finally show ?case using Cons by simp
qed

lemma histogram_total:
  "sum_list (map (\<lambda>(k, c). k * c) (histogram (group_by_length seq))) = sum_list (map length seq)"
proof -
  let ?g = "group_by_length seq"
  let ?acc = "fold (\<lambda>item grouped. append_item (length item) item grouped) seq []"
  have g: "?g = sorted_reverse ?acc" by (simp add: group_by_length_def)
  have d: "distinct (map fst ?g)" by (simp add: g distinct_fst_sorted_reverse grouped_fold(1))
  have k: "set (map fst ?g) = length ` set seq"
    using grouped_fold(2)[of seq] by (simp add: g set_sorted_reverse)
  have b: "snd kb = filter (\<lambda>item. length item = fst kb) seq" if "kb \<in> set ?g" for kb
  proof -
    from that have "kb \<in> set ?acc" by (simp add: g set_sorted_reverse)
    then have "map_of ?acc (fst kb) = Some (snd kb)"
      using map_of_is_SomeI[OF grouped_fold(1)[of seq], of "fst kb" "snd kb"] by simp
    then show ?thesis by (simp add: grouped_fold(3) split: if_splits)
  qed
  have "map (\<lambda>(k, c). k * c) (histogram ?g)
      = map (\<lambda>k. sum_list (map length (filter (\<lambda>item. length item = k) seq))) (map fst ?g)"
  proof -
    have "fst kb * length (snd kb) = sum_list (map length (filter (\<lambda>item. length item = fst kb) seq))"
      if "kb \<in> set ?g" for kb
    proof -
      have "sum_list (map length (filter (\<lambda>item. length item = fst kb) seq))
          = sum_list (map (\<lambda>_. fst kb) (filter (\<lambda>item. length item = fst kb) seq))"
        by (intro arg_cong[of _ _ sum_list] map_cong) auto
      also have "\<dots> = fst kb * length (snd kb)" by (simp add: b[OF that] sum_list_triv)
      finally show ?thesis by simp
    qed
    then show ?thesis by (auto simp: histogram_def split: prod.splits)
  qed
  then have "sum_list (map (\<lambda>(k, c). k * c) (histogram ?g))
      = sum_list (map (\<lambda>k. sum_list (map length (filter (\<lambda>item. length item = k) seq))) (map fst ?g))"
    by (simp only:)
  also have "\<dots> = (\<Sum>k\<in>set (map fst ?g). sum_list (map length (filter (\<lambda>item. length item = k) seq)))"
    using d by (rule sum_list_distinct_conv_sum_set)
  also have "\<dots> = sum_list (map length seq)"
    unfolding k by (rule sum_list_filter_split) auto
  finally show ?thesis .
qed

section \<open>Facts about the consumers of the scanner\<close>

lemma pulls_spec:
  assumes "0 < side vm" and "bp < length (map_bytes vm)" and "k \<le> 8"
    and "nxt = resume vm (bp, drop k bit_table)"
  shows "(\<forall>y \<in> set (pulls consumer hist vm nxt).
            fst y \<in> cells (side vm) \<and> 8 * bp + k \<le> flat vm (fst y)
            \<and> \<not> is_set (snd y) (flat vm (fst y)))
         \<and> sorted_wrt (<) (map (\<lambda>y. flat vm (fst y)) (pulls consumer hist vm nxt))"
  using assms
proof (induction consumer hist vm nxt arbitrary: bp k rule: pulls.induct)
  case (1 consumer hist vm e)
  show ?case by simp
next
  case (2 consumer hist vm)
  show ?case by simp
next
  case (3 consumer hist vm pair st)
  obtain n1 n2 where pair: "pair = (n1, n2)" by (cases pair)
  let ?vm = "visit_all vm (consumer (hist @ [pair]))"
  have fr: "length (map_bytes ?vm) = length (map_bytes vm)" "side ?vm = side vm"
    using visit_all_frame by simp_all
  from scan_spec[OF "3.prems"(1,2,3) refl refl] "3.prems"(4)[symmetric] "3.prems"(2)
  obtain p where p: "8 * bp + k \<le> p" "p < 8 * length (map_bytes vm)" "\<not> is_set vm p"
    and pb: "int p < side vm * side vm"
    and n: "n1 = int p div side vm" "n2 = int p mod side vm"
    and st: "st = (p div 8, drop (Suc (p mod 8)) bit_table)"
    by (auto simp: resume_def pair)
  have c: "pair \<in> cells (side vm)" and f: "flat vm pair = p"
    using unflat[OF "3.prems"(1), of p] pb by (simp_all add: n pair)
  have s': "0 < side ?vm" using "3.prems"(1) fr by simp
  have bp': "p div 8 < length (map_bytes ?vm)" using p(2) fr by simp
  have k': "Suc (p mod 8) \<le> 8" by simp
  have fl: "flat ?vm x = flat vm x" for x by (simp add: flat_def fr)
  from "3.IH"[OF s' bp' k'] st
  have later: "\<forall>y \<in> set (pulls consumer (hist @ [pair]) ?vm (resume ?vm st)).
            fst y \<in> cells (side vm) \<and> Suc p \<le> flat vm (fst y)
            \<and> \<not> is_set (snd y) (flat vm (fst y))"
    and sorted: "sorted_wrt (<) (map (\<lambda>y. flat vm (fst y))
                   (pulls consumer (hist @ [pair]) ?vm (resume ?vm st)))"
    by (simp_all add: fl fr)
  from later p(1) have later': "\<forall>y \<in> set (pulls consumer (hist @ [pair]) ?vm (resume ?vm st)).
            fst y \<in> cells (side vm) \<and> 8 * bp + k \<le> flat vm (fst y)
            \<and> \<not> is_set (snd y) (flat vm (fst y)) \<and> p < flat vm (fst y)"
    by auto
  show ?case using c f p(1,3) later' sorted by auto
qed

section \<open>The claims\<close>

subsection \<open>C1: the orbits partition the state space\<close>

text \<open>
  C1, as the code has it. For every base \<open>> 0\<close> with \<open>base\<^sup>2 < 2^53\<close> (where the float
  quotient that sizes the map is exact) the enumeration runs to completion without an
  exception, each
  orbit is the list of the second components of the state pairs its walk went through
  (starting pair included), and the state pairs gone through over all orbits are the
  \<open>base\<^sup>2\<close> ordered pairs of residues, each exactly once: as a list they have no
  repetition, as a set and as a multiset they are the whole of
  \<open>{0..<base} \<times> {0..<base}\<close>.
\<close>

theorem orbits_partition:
  assumes "0 < base" and "base * base < 2 ^ 53"
  shows "snd (modulo_fibonacci_log base) = None
     \<and> fst (modulo_fibonacci base) = map (map snd) (map snd (fst (modulo_fibonacci_log base)))
     \<and> distinct (traversed base)
     \<and> set (traversed base) = {0..<base} \<times> {0..<base}
     \<and> mset (traversed base) = mset_set ({0..<base} \<times> {0..<base})
     \<and> int (length (traversed base)) = base * base"
proof -
  from modulo_fibonacci_log_spec[OF assms] obtain rs where
    m: "modulo_fibonacci_log base = (rs, None)"
    and r: "\<forall>r \<in> set rs. fst r = map snd (snd r) \<and> snd r \<noteq> []"
    and d: "distinct (concat (map snd rs))"
    and s: "set (concat (map snd rs)) = cells base" by blast
  have t: "traversed base = concat (map snd rs)" by (simp add: traversed_def m)
  have "map fst rs = map (map snd) (map snd rs)" using r by simp
  then have runs: "fst (modulo_fibonacci base) = map (map snd) (map snd (fst (modulo_fibonacci_log base)))"
    by (simp add: modulo_fibonacci_runs m)
  have ms: "mset (traversed base) = mset_set (cells base)"
    using d s unfolding t by (metis mset_set_set)
  have "length (traversed base) = card (cells base)"
    using d s unfolding t by (metis distinct_card)
  then have "int (length (traversed base)) = base * base"
    using assms(1) by (simp add: card_cells)
  with runs ms d s t m show ?thesis by (simp add: cells_def)
qed

text \<open>C1 at base 3: nine pairs, each once.\<close>

theorem orbits_partition_witness:
  "snd (modulo_fibonacci_log 3) = None
   \<and> distinct (traversed 3)
   \<and> set (traversed 3) = {0..<3} \<times> {0..<3}
   \<and> int (length (traversed 3)) = 9"
  using orbits_partition[of 3] by simp

text \<open>
  C1, as the claim states it (for every base \<open>> 0\<close>), fails at base \<open>10^200\<close>: the
  constructor raises \<^verbatim>\<open>OverflowError\<close> in its float division, and no pair is gone through,
  not even \<open>(0, 0)\<close>.
\<close>

theorem orbits_partition_counterexample:
  "(0::int) < 10 ^ 200
   \<and> snd (modulo_fibonacci_log (10 ^ 200)) = Some OverflowError
   \<and> traversed (10 ^ 200) = []
   \<and> set (traversed (10 ^ 200)) \<noteq> {0..<10 ^ 200} \<times> {0..<10 ^ 200}"
proof -
  have t: "traversed (10 ^ 200) = []"
    unfolding traversed_def overflow_at_10_200 by simp
  have e: "snd (modulo_fibonacci_log (10 ^ 200)) = Some OverflowError"
    unfolding overflow_at_10_200 by simp
  have mem: "((0::int), (0::int)) \<in> {0..<10 ^ 200} \<times> {0..<10 ^ 200}" by simp
  have ne: "set (traversed (10 ^ 200)) \<noteq> {0..<10 ^ 200} \<times> {0..<10 ^ 200}"
  proof
    assume a: "set (traversed (10 ^ 200)) = {0..<10 ^ 200} \<times> {0..<10 ^ 200}"
    have "((0::int), (0::int)) \<in> set (traversed (10 ^ 200))" unfolding a by (rule mem)
    then show False unfolding t by simp
  qed
  have p: "(0::int) < 10 ^ 200" by simp
  from p e t ne show ?thesis by (intro conjI)
qed

subsection \<open>C2: \<^verbatim>\<open>visit\<close> reads, then sets, and returns what it read\<close>

text \<open>
  C2. On a map of side \<open>base\<close> with its \<open>ceil(base\<^sup>2 / 8)\<close> bytes, and for every pair
  \<open>(a, b)\<close> with \<open>0 \<le> a, b < base\<close>, \<open>visit\<close> raises nothing, returns the value that the
  bit of flat index \<open>a * base + b\<close> had before the call (true: the pair had been visited),
  and leaves that bit set, every other bit, the side and the size of the map as they
  were.
\<close>

theorem visit_test_and_mark:
  assumes "0 \<le> a" "a < side vm" "0 \<le> b" "b < side vm"
    and "length (map_bytes vm) = nat (ceil8 (side vm * side vm))"
  shows "\<exists>vm'. visit vm a b = Inr (is_set vm (nat (a * side vm + b)), vm')
           \<and> is_set vm' (nat (a * side vm + b))
           \<and> (\<forall>q. q \<noteq> nat (a * side vm + b) \<longrightarrow> is_set vm' q = is_set vm q)
           \<and> side vm' = side vm \<and> length (map_bytes vm') = length (map_bytes vm)"
proof -
  note fb = flat_index_bound[OF assms(1-4)]
  have "nat (a * side vm + b) < 8 * length (map_bytes vm)"
    unfolding assms(5) using fb by (intro ceil8_covers) auto
  from visit_in_range[OF fb(1) this] show ?thesis by auto
qed

text \<open>C2 at the pair \<open>(1, 0)\<close> of a fresh map of side 2: flat index 2.\<close>

theorem visit_test_and_mark_witness:
  "\<exists>vm'. visit (zeroed_map 2) 1 0 = Inr (False, vm') \<and> is_set vm' 2 \<and> \<not> is_set vm' 3
     \<and> side vm' = 2 \<and> length (map_bytes vm') = 1"
proof -
  let ?vm = "zeroed_map 2"
  have s: "side ?vm = 2" and l: "length (map_bytes ?vm) = nat (ceil8 (side ?vm * side ?vm))"
    and l1: "length (map_bytes ?vm) = 1"
    by (simp_all add: zeroed_map_def ceil8_def)
  have "(0::int) \<le> 1" "1 < side ?vm" "(0::int) \<le> 0" "0 < side ?vm" by (simp_all add: s)
  from visit_test_and_mark[OF this l] obtain vm' where
    "visit ?vm 1 0 = Inr (is_set ?vm (nat (1 * side ?vm + 0)), vm')"
    "is_set vm' (nat (1 * side ?vm + 0))"
    "\<And>q. q \<noteq> nat (1 * side ?vm + 0) \<Longrightarrow> is_set vm' q = is_set ?vm q"
    "side vm' = side ?vm" "length (map_bytes vm') = length (map_bytes ?vm)"
    by blast
  from this(1,2) this(3)[of 3] this(4,5) show ?thesis
    by (simp add: s l1)
qed

subsection \<open>C3: the orbits of base 2\<close>

text \<open>
  C3, as the code has it. For base 2 the enumeration yields exactly two runs, in this
  order: \<open>[0]\<close> from the starting pair \<open>(0, 0)\<close>, whose walk goes through the one state
  \<open>(0, 0)\<close> and closes after one step, and \<open>[1, 1, 0]\<close> from the starting pair \<open>(0, 1)\<close>,
  whose walk goes through \<open>(0, 1)\<close>, \<open>(1, 1)\<close>, \<open>(1, 0)\<close> and closes after three steps. No
  exception ends the enumeration. The length histogram is \<open>{3: 1, 1: 1}\<close>.
\<close>

theorem base2_orbits:
  "modulo_fibonacci_log 2 = ([([0], [(0, 0)]), ([1, 1, 0], [(0, 1), (1, 1), (1, 0)])], None)
   \<and> modulo_fibonacci 2 = ([[0], [1, 1, 0]], None)
   \<and> histogram (group_by_length (fst (modulo_fibonacci 2))) = [(3, 1), (1, 1)]"
  by code_simp

text \<open>
  C3, as the claim states it, fails: the runs of base 2 are not \<open>[]\<close> and \<open>[1, 0, 1]\<close>,
  and the histogram is not \<open>{3: 1, 0: 1}\<close>. The first call of \<open>visit\<close> on a fresh pair
  returns \<^verbatim>\<open>False\<close>, so the walk from \<open>(0, 0)\<close> appends one element before it closes, and
  the element appended at each step is the new first component of the state.
\<close>

theorem base2_orbits_counterexample:
  "fst (modulo_fibonacci 2) \<noteq> [[], [1, 0, 1]]
   \<and> histogram (group_by_length (fst (modulo_fibonacci 2))) \<noteq> [(3, 1), (0, 1)]"
  by code_simp

subsection \<open>C4: how many elements are emitted\<close>

text \<open>
  C4, as the code has it. For every base \<open>> 0\<close> with \<open>base\<^sup>2 < 2^53\<close> (where the float
  quotient that sizes the map is exact), the number of elements emitted over all orbits is \<open>base\<^sup>2\<close>
  minus the number of orbits that are empty; no orbit is empty, so it is \<open>base\<^sup>2\<close>. The
  length histogram accounts for all of them: the products of each length by the number
  of orbits of that length sum to the same total.
\<close>

theorem emitted_count:
  assumes "0 < base" and "base * base < 2 ^ 53"
  defines "runs \<equiv> fst (modulo_fibonacci base)"
  shows "filter (\<lambda>run. run = []) runs = []
     \<and> int (sum_list (map length runs)) = base * base - int (length (filter (\<lambda>run. run = []) runs))
     \<and> sum_list (map (\<lambda>(k, c). k * c) (histogram (group_by_length runs))) = sum_list (map length runs)"
proof -
  from modulo_fibonacci_log_spec[OF assms(1,2)] obtain rs where
    m: "modulo_fibonacci_log base = (rs, None)"
    and r: "\<forall>r \<in> set rs. fst r = map snd (snd r) \<and> snd r \<noteq> []"
    and d: "distinct (concat (map snd rs))"
    and s: "set (concat (map snd rs)) = cells base" by blast
  have runs: "runs = map fst rs" by (simp add: runs_def modulo_fibonacci_runs m)
  have ne: "filter (\<lambda>run. run = []) runs = []" using r by (auto simp: runs filter_empty_conv)
  have "map length runs = map length (map snd rs)" using r by (simp add: runs)
  then have "sum_list (map length runs) = length (concat (map snd rs))"
    by (simp only: length_concat)
  also have "\<dots> = card (cells base)" using d s by (metis distinct_card)
  finally have "int (sum_list (map length runs)) = base * base"
    using assms(1) by (simp add: card_cells)
  with ne histogram_total[of runs] show ?thesis by simp
qed

text \<open>C4 at base 10: 100 elements emitted, and the histogram sums to 100.\<close>

theorem emitted_count_witness:
  "sum_list (map length (fst (modulo_fibonacci 10))) = 100
   \<and> sum_list (map (\<lambda>(k, c). k * c) (histogram (group_by_length (fst (modulo_fibonacci 10))))) = 100
   \<and> filter (\<lambda>run. run = []) (fst (modulo_fibonacci 10)) = []"
proof -
  note e = emitted_count[of 10]
  from e have f: "filter (\<lambda>run. run = []) (fst (modulo_fibonacci 10)) = []" by simp
  from e have "int (sum_list (map length (fst (modulo_fibonacci 10)))) = 100" by (simp add: f)
  then have t: "sum_list (map length (fst (modulo_fibonacci 10))) = 100" by linarith
  from e t f show ?thesis by simp
qed

text \<open>
  C4, as the claim states it (for every base \<open>> 0\<close>), fails at base \<open>10^200\<close>: the
  constructor raises \<^verbatim>\<open>OverflowError\<close>, no orbit is yielded, and the number of elements
  emitted is 0, not \<open>base\<^sup>2\<close> minus the number of empty orbits.
\<close>

theorem emitted_count_counterexample:
  "(0::int) < 10 ^ 200
   \<and> sum_list (map length (fst (modulo_fibonacci (10 ^ 200)))) = 0
   \<and> int (sum_list (map length (fst (modulo_fibonacci (10 ^ 200)))))
       \<noteq> 10 ^ 200 * 10 ^ 200
           - int (length (filter (\<lambda>run. run = []) (fst (modulo_fibonacci (10 ^ 200)))))"
proof -
  have m: "fst (modulo_fibonacci (10 ^ 200)) = []"
    unfolding modulo_fibonacci_def overflow_at_10_200 by simp
  show ?thesis unfolding m by simp
qed

subsection \<open>C5: the one error\<close>

text \<open>
  C5, as the code has it. For every base \<open>\<le> 0\<close> the enumeration ends with \<^verbatim>\<open>ValueError\<close>,
  the invalid-argument condition, and yields no orbit: the test is the first statement
  of the body, before the map is built (in \<open>modulo_fibonacci_log\<close> the branch taken does
  not mention the map). For every base \<open>> 0\<close> with \<open>base\<^sup>2 < 2^53\<close> (where the float
  quotient that sizes the map is exact) the enumeration ends without any exception.
\<close>

theorem invalid_base:
  "(base \<le> 0 \<longrightarrow> modulo_fibonacci base = ([], Some ValueError))
   \<and> (0 < base \<and> base * base < 2 ^ 53 \<longrightarrow> snd (modulo_fibonacci base) = None)"
proof (intro conjI impI)
  assume "base \<le> 0"
  then show "modulo_fibonacci base = ([], Some ValueError)"
    by (simp add: modulo_fibonacci_def modulo_fibonacci_log_def)
next
  assume b: "0 < base \<and> base * base < 2 ^ 53"
  then have "0 < base" and "base * base < 2 ^ 53" by simp_all
  from modulo_fibonacci_log_spec[OF this] show "snd (modulo_fibonacci base) = None"
    by (auto simp: modulo_fibonacci_runs)
qed

text \<open>C5 at the bases 0, -3 and 2.\<close>

theorem invalid_base_witness:
  "modulo_fibonacci 0 = ([], Some ValueError) \<and> modulo_fibonacci (- 3) = ([], Some ValueError)
   \<and> snd (modulo_fibonacci 2) = None"
  using invalid_base[of 0] invalid_base[of "- 3"] invalid_base[of 2] by simp

text \<open>
  C5, as the claim states it (one error kind, and no error for any base \<open>> 0\<close>), fails
  at base \<open>10^200\<close>: the enumeration ends with \<^verbatim>\<open>OverflowError\<close>, raised by the float
  division of the constructor, and yields no orbit.
\<close>

theorem invalid_base_counterexample:
  "(0::int) < 10 ^ 200 \<and> modulo_fibonacci (10 ^ 200) = ([], Some OverflowError)"
proof -
  have m: "modulo_fibonacci (10 ^ 200) = ([], Some OverflowError)"
    unfolding modulo_fibonacci_def overflow_at_10_200 by simp
  have p: "(0::int) < 10 ^ 200" by simp
  from p m show ?thesis by (intro conjI)
qed

subsection \<open>C6: the scan of the unvisited pairs\<close>

text \<open>
  C6. On a map of positive side, and whatever pairs the consumer visits between the
  pulls, \<open>iterate_free_pairs\<close> comes to an end, yields its pairs in strictly ascending
  order of flat index, yields only pairs \<open>(a, b)\<close> with \<open>0 \<le> a, b < side\<close> (flat index at
  most \<open>side\<^sup>2 - 1\<close>), and the bit of each pair it yields is unset in the map as it is at
  that yield, that is, after everything the consumer did since the yield before.
\<close>

theorem scanner_yields:
  assumes "0 < side vm"
  shows "sorted_wrt (<) (map (\<lambda>y. flat vm (fst y)) (scan_yields consumer vm))
     \<and> (\<forall>y \<in> set (scan_yields consumer vm).
          fst y \<in> {0..<side vm} \<times> {0..<side vm} \<and> \<not> is_set (snd y) (flat vm (fst y)))"
proof (cases "0 < length (map_bytes vm)")
  case True
  then have first: "iterate_free_pairs vm = resume vm (0, drop 0 bit_table)"
    by (simp add: iterate_free_pairs_def resume_def)
  from pulls_spec[OF assms True _ first, of consumer "[]"] show ?thesis
    by (simp add: scan_yields_def cells_def)
next
  case False
  then show ?thesis by (simp add: scan_yields_def iterate_free_pairs_def)
qed

text \<open>
  C6 on a fresh map of side 2 with a consumer that visits \<open>(1, 1)\<close> after every yield:
  the pair \<open>(1, 1)\<close>, in the same byte as the pairs yielded before it, is not yielded.
\<close>

theorem scanner_yields_witness:
  "sorted_wrt (<) (map (\<lambda>y. flat (zeroed_map 2) (fst y))
                       (scan_yields (\<lambda>h. [(1, 1)]) (zeroed_map 2)))
   \<and> map fst (scan_yields (\<lambda>h. [(1, 1)]) (zeroed_map 2)) = [(0, 0), (0, 1), (1, 0)]"
proof -
  have s: "0 < side (zeroed_map 2)" by (simp add: zeroed_map_def)
  have "map fst (scan_yields (\<lambda>h. [(1, 1)]) (zeroed_map 2)) = [(0, 0), (0, 1), (1, 0)]"
    by code_simp
  with scanner_yields[OF s, of "\<lambda>h. [(1, 1)]"] show ?thesis by simp
qed

subsection \<open>C7: marking is idempotent after the first call\<close>

text \<open>
  C7. On a fresh map of side \<open>base\<close> (its \<open>ceil(base\<^sup>2 / 8)\<close> bytes all zero) and for every
  pair \<open>(a, b)\<close> with \<open>0 \<le> a, b < base\<close>, the first call of \<open>visit\<close> returns false; the
  second returns true and leaves the map as the first call left it; so of any number of
  successive calls on the pair the first returns false and every later one true.
\<close>

theorem visit_idempotent:
  assumes "0 \<le> a" "a < base" "0 \<le> b" "b < base"
    and "side vm = base" and "map_bytes vm = replicate (nat (ceil8 (base * base))) 0"
  shows "\<exists>vm1. visit vm a b = Inr (False, vm1)
           \<and> visit vm1 a b = Inr (True, vm1)
           \<and> (\<forall>n. visit_repeat (Suc n) vm a b = Inr (False # replicate n True, vm1))"
proof -
  have l: "length (map_bytes vm) = nat (ceil8 (side vm * side vm))"
    using assms(5,6) by simp
  note fb = flat_index_bound[OF assms(1-4)]
  have r: "nat (a * side vm + b) < 8 * length (map_bytes vm)"
    unfolding l assms(5) using fb by (intro ceil8_covers) auto
  from visit_in_range[OF _ r] fb assms(5) is_set_zero[OF assms(6)] obtain vm1 where
    v1: "visit vm a b = Inr (False, vm1)" and
    q: "\<And>q. is_set vm1 q = (is_set vm q \<or> q = nat (a * side vm + b))" and
    l1: "length (map_bytes vm1) = length (map_bytes vm)" and s1: "side vm1 = side vm"
    by auto
  have r1: "nat (a * side vm1 + b) < 8 * length (map_bytes vm1)" using r l1 s1 by simp
  from visit_in_range[OF _ r1] fb assms(5) s1 q obtain vm2 where
    v2: "visit vm1 a b = Inr (True, vm2)" by auto
  from visit_again[OF v2] v2 have v2': "visit vm1 a b = Inr (True, vm1)" by simp
  have rep: "visit_repeat n vm1 a b = Inr (replicate n True, vm1)" for n
    by (induction n) (simp_all add: v2')
  show ?thesis using v1 v2' rep by auto
qed

text \<open>
  C7 at the pair \<open>(2, 1)\<close> of the map that the constructor builds for side 3, called
  three times.
\<close>

theorem visit_idempotent_witness:
  "VisitedMap_init 3 = Inr \<lparr>side = 3, map_bytes = [0, 0]\<rparr>
   \<and> (\<exists>vm1. visit \<lparr>side = 3, map_bytes = [0, 0]\<rparr> 2 1 = Inr (False, vm1)
          \<and> visit vm1 2 1 = Inr (True, vm1)
          \<and> visit_repeat 3 \<lparr>side = 3, map_bytes = [0, 0]\<rparr> 2 1 = Inr ([False, True, True], vm1))"
proof -
  let ?vm = "\<lparr>side = 3, map_bytes = [0, 0]\<rparr>"
  have i: "VisitedMap_init 3 = Inr ?vm"
    by (simp add: VisitedMap_init_exact zeroed_map_def ceil8_def numeral_2_eq_2)
  have z: "map_bytes ?vm = replicate (nat (ceil8 (3 * 3))) 0"
    by (simp add: ceil8_def numeral_2_eq_2)
  from visit_idempotent[of 2 3 1 ?vm, OF _ _ _ _ _ z] obtain vm1 where
    "visit ?vm 2 1 = Inr (False, vm1)" "visit vm1 2 1 = Inr (True, vm1)"
    "\<And>n. visit_repeat (Suc n) ?vm 2 1 = Inr (False # replicate n True, vm1)"
    by auto
  from i this(1,2) this(3)[of 2] show ?thesis by (auto simp: numeral_3_eq_3)
qed

subsection \<open>C8: every orbit is non-empty and made of residues\<close>

text \<open>
  C8. For every base \<open>> 0\<close>, every orbit that the enumeration yields has at least one
  element, and every element of every orbit is a residue in \<open>[0, base)\<close>.
\<close>

theorem orbits_nonempty_in_range:
  assumes "0 < base"
  shows "\<forall>run \<in> set (fst (modulo_fibonacci base)). run \<noteq> [] \<and> (\<forall>x \<in> set run. 0 \<le> x \<and> x < base)"
proof
  fix run assume "run \<in> set (fst (modulo_fibonacci base))"
  then obtain r where "r \<in> set (fst (modulo_fibonacci_log base))" and "run = fst r"
    by (auto simp: modulo_fibonacci_runs)
  with modulo_fibonacci_log_safe[OF assms]
  show "run \<noteq> [] \<and> (\<forall>x \<in> set run. 0 \<le> x \<and> x < base)" by simp
qed

text \<open>C8 at base 2 and its orbit \<open>[0]\<close>.\<close>

theorem orbits_nonempty_in_range_witness:
  "(0::int) < 2 \<and> [0] \<in> set (fst (modulo_fibonacci 2)) \<and> [0] \<noteq> ([]::int list)
     \<and> (0::int) \<in> set [0] \<and> (0::int) \<le> 0 \<and> (0::int) < 2"
proof -
  have "[0] \<in> set (fst (modulo_fibonacci 2))" by code_simp
  with orbits_nonempty_in_range[of 2] show ?thesis by simp
qed

subsection \<open>C9: \<^verbatim>\<open>group_by_length\<close>\<close>

text \<open>
  C9. For every finite sequence of lists, the keys of the mapping that
  \<open>group_by_length\<close> returns are exactly the lengths that occur in the sequence, they
  come in strictly descending order, and the bucket of each key \<open>k\<close> is the
  subsequence of the input lists of length \<open>k\<close>, in their original order.
\<close>

theorem group_by_length_buckets:
  fixes seq :: "'a list list"
  defines "g \<equiv> group_by_length seq"
  shows "set (map fst g) = length ` set seq
     \<and> sorted_wrt (>) (map fst g)
     \<and> map snd g = map (\<lambda>k. filter (\<lambda>item. length item = k) seq) (map fst g)"
proof -
  let ?g0 = "fold (\<lambda>item grouped. append_item (length item) item grouped) seq []"
  have g: "g = sorted_reverse ?g0" by (simp add: g_def group_by_length_def)
  have d: "distinct (map fst g)" by (simp add: g distinct_fst_sorted_reverse grouped_fold(1))
  have k: "set (map fst g) = length ` set seq"
    using grouped_fold(2)[of seq] by (simp add: g set_sorted_reverse)
  have "sorted_wrt (<) (rev (map fst g))"
    using d fst_sorted_reverse[of ?g0] by (simp add: strict_sorted_iff g)
  then have s: "sorted_wrt (>) (map fst g)" by (simp add: sorted_wrt_rev)
  have "snd kb = filter (\<lambda>item. length item = fst kb) seq" if "kb \<in> set g" for kb
  proof -
    from that have "kb \<in> set ?g0" by (simp add: g set_sorted_reverse)
    then have "map_of ?g0 (fst kb) = Some (snd kb)"
      using map_of_is_SomeI[OF grouped_fold(1)[of seq], of "fst kb" "snd kb"] by simp
    then show ?thesis by (simp add: grouped_fold(3) split: if_splits)
  qed
  then have b: "map snd g = map (\<lambda>k. filter (\<lambda>item. length item = k) seq) (map fst g)"
    by simp
  from k s b show ?thesis by blast
qed

subsection \<open>C10: what the consumers do to the orbit lists\<close>

text \<open>
  C10, as the code has it. \<open>group_by_length\<close> is a pure function of the orbits (C9: each
  bucket holds the input lists themselves), but \<^verbatim>\<open>Alphabet.dump\<close> is not: rendering a run
  removes its last element (\<^verbatim>\<open>run.pop()\<close>) and leaves the other elements as they were.
  So after \<open>dump\<close> every run it went through, up to and including the one at which an
  exception was raised, if any, is the original without its last element, and the runs
  after that one are untouched.
\<close>

theorem dump_pops:
  "fst (dump_run c self run) = butlast run
   \<and> (case dump c self runs of
        (runs', lines, e) \<Rightarrow>
          runs' = map butlast (take (length lines + (case e of None \<Rightarrow> 0 | Some _ \<Rightarrow> 1)) runs)
                  @ drop (length lines + (case e of None \<Rightarrow> 0 | Some _ \<Rightarrow> 1)) runs)"
proof
  show "fst (dump_run c self run) = butlast run" by (rule dump_run_pops)
  show "case dump c self runs of
        (runs', lines, e) \<Rightarrow>
          runs' = map butlast (take (length lines + (case e of None \<Rightarrow> 0 | Some _ \<Rightarrow> 1)) runs)
                  @ drop (length lines + (case e of None \<Rightarrow> 0 | Some _ \<Rightarrow> 1)) runs"
  proof (induction runs)
    case Nil
    show ?case by simp
  next
    case (Cons r rs)
    obtain r' res where dr: "dump_run c self r = (r', res)" by (cases "dump_run c self r")
    with dump_run_pops[of c self r] have r': "r' = butlast r" by simp
    show ?case
    proof (cases res)
      case (Inl e)
      with dr r' show ?thesis by simp
    next
      case (Inr line)
      obtain rs' lines e where d: "dump c self rs = (rs', lines, e)" by (cases "dump c self rs")
      with Cons dr r' Inr show ?thesis by simp
    qed
  qed
qed

text \<open>
  C10, as the claim states it, fails: the display layer changes the emitted orbits. For
  base 2 the grouped orbits \<open>[1, 1, 0]\<close> and \<open>[0]\<close> are \<open>[1, 1]\<close> and \<open>[]\<close> after \<open>dump\<close>.
\<close>

theorem dump_pops_counterexample:
  "fst (dump ansi \<lparr>alength = 1, symbols = [''0'', ''1'']\<rparr>
          (concat (map snd (group_by_length (fst (modulo_fibonacci 2))))))
     \<noteq> concat (map snd (group_by_length (fst (modulo_fibonacci 2))))"
  by code_simp

end
